theory Spec2Isabelle
  imports Complex_Main "HOL-Library.Log_Nat"
begin

section \<open>The Game of Life of game-of-life.js\<close>

text \<open>
  The script keeps two global two-dimensional arrays, \<open>grid\<close> and \<open>tempGrid\<close>, steps
  the automaton from one into the other, counts the live cells and seeds a new game when
  fewer than a tenth are alive. The model keeps JavaScript's reference semantics: the
  two globals hold addresses into a store of arrays, so that \<open>grid = tempGrid\<close> makes
  both name one array.
\<close>

subsection \<open>Values, arrays and the store\<close>

text \<open>
  A read of an array yields a number or \<open>undefined\<close>. The only exception the script can
  raise is the TypeError of indexing \<open>undefined\<close>.
\<close>

datatype val = Undefined | Num int

datatype error = TypeError

type_synonym array2 = "val list list"

type_synonym addr = nat

text \<open>
  The constants of the page: \<open>width\<close> and \<open>height\<close> are the canvas's integer width and
  height attributes; \<open>random\<close> lists the results of the successive calls of
  \<open>Math.random()\<close>. Numbers are rationals: the quotients \<open>width / size\<close> are exact in
  a double, being divisions by four.
\<close>

record env =
  width :: nat
  height :: nat
  random :: "nat \<Rightarrow> rat"

definition size_cell :: rat where
  "size_cell = 4"

definition stepInMs :: rat where
  "stepInMs = 500"

text \<open>
  The program state: the store of arrays with the next unused address, the globals
  \<open>grid\<close>, \<open>tempGrid\<close>, \<open>startTime\<close> (\<open>None\<close> for \<open>null\<close>) and \<open>drawCount\<close>, the number
  of calls of \<open>Math.random\<close> made so far, and two counters of calls into the host:
  \<open>clearRect\<close> (once at the start of each \<open>update\<close>) and \<open>requestAnimationFrame\<close>.
  A column array is owned by the one outer array that \<open>initArray\<close> put it in, so the store
  holds an outer array together with its columns. The other canvas calls and the write-only
  global \<open>neighbours\<close> do not act on this state and are left out.
\<close>

record state =
  heap :: "addr \<Rightarrow> array2"
  nextAddr :: addr
  grid :: addr
  tempGrid :: addr
  randomCalls :: nat
  startTime :: "rat option"
  drawCount :: nat
  clearCalls :: nat
  frameRequests :: nat

definition bindE :: "error + 'a \<Rightarrow> ('a \<Rightarrow> error + 'b) \<Rightarrow> error + 'b" where
  "bindE m f = (case m of Inl e \<Rightarrow> Inl e | Inr a \<Rightarrow> f a)"

text \<open>JavaScript's truthiness and \<open>v == 0\<close> on the values that occur.\<close>

fun truthy :: "val \<Rightarrow> bool" where
  "truthy Undefined = False"
| "truthy (Num n) = (n \<noteq> 0)"

fun looseEq0 :: "val \<Rightarrow> bool" where
  "looseEq0 Undefined = False"
| "looseEq0 (Num n) = (n = 0)"

text \<open>
  \<open>a[x][y]\<close>: \<open>a[x]\<close> is \<open>undefined\<close> for an index that is negative or past the end,
  and indexing \<open>undefined\<close> throws; \<open>a[x][y]\<close> with \<open>a[x]\<close> an array is \<open>undefined\<close>
  when \<open>y\<close> is not an index of it.
\<close>

definition index2 :: "array2 \<Rightarrow> int \<Rightarrow> int \<Rightarrow> error + val" where
  "index2 a x y =
     (if x < 0 \<or> int (length a) \<le> x then Inl TypeError
      else let col = a ! nat x
           in if y < 0 \<or> int (length col) \<le> y then Inr Undefined
              else Inr (col ! nat y))"

text \<open>
  \<open>xs[i] = v\<close>: a write past the end extends the array, leaving holes that read as
  the given filler.
\<close>

definition assign :: "'a \<Rightarrow> 'a list \<Rightarrow> nat \<Rightarrow> 'a \<Rightarrow> 'a list" where
  "assign hole xs i v =
     (if i < length xs then xs[i := v]
      else xs @ replicate (i - length xs) hole @ [v])"

text \<open>\<open>a[x][y] = v\<close> throws when \<open>a[x]\<close> is \<open>undefined\<close>.\<close>

definition store2 :: "array2 \<Rightarrow> nat \<Rightarrow> nat \<Rightarrow> val \<Rightarrow> error + array2" where
  "store2 a x y v =
     (if x < length a then Inr (a[x := assign Undefined (a ! x) y v])
      else Inl TypeError)"

definition writeCell :: "addr \<Rightarrow> nat \<Rightarrow> nat \<Rightarrow> val \<Rightarrow> state \<Rightarrow> error + state" where
  "writeCell r x y v s =
     bindE (store2 (heap s r) x y v) (\<lambda>a. Inr (s\<lparr>heap := (heap s)(r := a)\<rparr>))"

text \<open>A new array takes the next unused address.\<close>

definition alloc :: "array2 \<Rightarrow> state \<Rightarrow> addr \<times> state" where
  "alloc a s = (nextAddr s, s\<lparr>heap := (heap s)(nextAddr s := a), nextAddr := nextAddr s + 1\<rparr>)"

subsection \<open>Loops\<close>

text \<open>
  \<open>for (let i = i0; i < bound; i++) body\<close>, where the bound is a number that need not be
  an integer and the body may throw, which leaves the loop.
\<close>

function forLoopE :: "rat \<Rightarrow> nat \<Rightarrow> (nat \<Rightarrow> 'a \<Rightarrow> error + 'a) \<Rightarrow> 'a \<Rightarrow> error + 'a" where
  "forLoopE bound i body a =
     (if of_nat i < bound
      then (case body i a of Inl e \<Rightarrow> Inl e | Inr a' \<Rightarrow> forLoopE bound (i + 1) body a')
      else Inr a)"
  by pat_completeness auto
termination
proof (relation "measure (\<lambda>(bound, i, body, a). nat \<lceil>bound\<rceil> - i)")
  show "wf (measure (\<lambda>(bound :: rat, i :: nat, body :: nat \<Rightarrow> 'a \<Rightarrow> error + 'a, a :: 'a). nat \<lceil>bound\<rceil> - i))"
    by simp
next
  fix bound :: rat and i :: nat and body :: "nat \<Rightarrow> 'a \<Rightarrow> error + 'a" and a a' :: 'a
  assume "of_nat i < bound"
  then have "int i < \<lceil>bound\<rceil>"
    by (simp add: less_ceiling_iff)
  then show "((bound, i + 1, body, a'), (bound, i, body, a))
      \<in> measure (\<lambda>(bound, i, body, a). nat \<lceil>bound\<rceil> - i)"
    by simp
qed

declare forLoopE.simps [simp del]

subsection \<open>The rules of the game\<close>

definition cellValue :: "state \<Rightarrow> int \<Rightarrow> int \<Rightarrow> val" where
  "cellValue s x y =
     (case index2 (heap s (grid s)) x y of Inl e \<Rightarrow> Num 0 | Inr v \<Rightarrow> v)"

definition present :: "val \<Rightarrow> nat" where
  "present v = (if truthy v then 1 else 0)"

definition countNeighbours :: "state \<Rightarrow> int \<Rightarrow> int \<Rightarrow> nat" where
  "countNeighbours s x y =
     present (cellValue s (x - 1) (y - 1)) +
     present (cellValue s (x - 1) y) +
     present (cellValue s (x - 1) (y + 1)) +
     present (cellValue s x (y - 1)) +
     present (cellValue s x (y + 1)) +
     present (cellValue s (x + 1) (y - 1)) +
     present (cellValue s (x + 1) y) +
     present (cellValue s (x + 1) (y + 1))"

definition updateCell :: "state \<Rightarrow> int \<Rightarrow> int \<Rightarrow> error + val" where
  "updateCell s x y =
     (let neighbours = countNeighbours s x y
      in if neighbours > 3 \<or> neighbours < 2 then Inr (Num 0)
         else bindE (index2 (heap s (grid s)) x y) (\<lambda>v.
              if looseEq0 v \<and> neighbours = 3 then Inr (Num 1) else Inr v))"

subsection \<open>Creating and seeding the grids\<close>

text \<open>
  \<open>initArray\<close>: \<open>x\<close> counts up from 0, so every \<open>arr[x] = []\<close> appends a column and
  no hole arises; the cells of the column are then appended in the same way.
\<close>

definition initArray :: "rat \<Rightarrow> rat \<Rightarrow> error + array2" where
  "initArray w h =
     forLoopE w 0 (\<lambda>x arr.
       forLoopE h 0 (\<lambda>y arr. store2 arr x y (Num 0)) (assign [] arr x []))
     []"

text \<open>
  Lines 176 to 189 of \<open>populateGrid\<close>: the two allocations and the random filling of
  \<open>grid\<close>, one call of \<open>Math.random\<close> for each cell.
\<close>

definition seedCell :: "env \<Rightarrow> nat \<Rightarrow> nat \<Rightarrow> state \<Rightarrow> error + state" where
  "seedCell e x y s =
     (let r = random e (randomCalls s);
          s1 = s\<lparr>randomCalls := randomCalls s + 1\<rparr>
      in if r > 1 / 2 then writeCell (grid s1) x y (Num 1) s1 else Inr s1)"

definition seedGrid :: "env \<Rightarrow> state \<Rightarrow> error + state" where
  "seedGrid e s =
     bindE (initArray (of_nat (width e) / size_cell) (of_nat (height e) / size_cell)) (\<lambda>a.
       let (r, s1) = alloc a s;
           s2 = s1\<lparr>grid := r\<rparr>
       in bindE (initArray (of_nat (width e) / size_cell) (of_nat (height e) / size_cell)) (\<lambda>b.
            let (r', s3) = alloc b s2;
                s4 = s3\<lparr>tempGrid := r'\<rparr>
            in forLoopE (of_nat (width e) / size_cell) 0 (\<lambda>x.
                 forLoopE (of_nat (height e) / size_cell) 0 (\<lambda>y. seedCell e x y)) s4))"

subsection \<open>One update\<close>

text \<open>Lines 87 to 91: every cell of \<open>tempGrid\<close> is written from a reading of \<open>grid\<close>.\<close>

definition stepCell :: "nat \<Rightarrow> nat \<Rightarrow> state \<Rightarrow> error + state" where
  "stepCell x y s =
     bindE (updateCell s (int x) (int y)) (\<lambda>v. writeCell (tempGrid s) x y v s)"

definition stepCells :: "env \<Rightarrow> state \<Rightarrow> error + state" where
  "stepCells e s =
     forLoopE (of_nat (width e) / size_cell) 0 (\<lambda>x.
       forLoopE (of_nat (height e) / size_cell) 0 (\<lambda>y. stepCell x y)) s"

definition drawCells :: "env \<Rightarrow> state \<Rightarrow> error + nat" where
  "drawCells e s =
     forLoopE (of_nat (width e) / size_cell) 0 (\<lambda>x.
       forLoopE (of_nat (height e) / size_cell) 0 (\<lambda>y cnt.
         bindE (index2 (heap s (grid s)) (int x) (int y)) (\<lambda>v.
           Inr (if truthy v then cnt + 1 else cnt)))) 0"

text \<open>
  Lines 87 to 94, the step: the cells are written, then \<open>grid = tempGrid\<close> copies the
  reference, not the array.
\<close>

definition step :: "env \<Rightarrow> state \<Rightarrow> error + state" where
  "step e s = bindE (stepCells e s) (\<lambda>s1. Inr (s1\<lparr>grid := tempGrid s1\<rparr>))"

text \<open>
  Lines 81 to 97: the canvas is cleared, the step is made, and the live cells are drawn and
  counted.
\<close>

definition cycle :: "env \<Rightarrow> state \<Rightarrow> error + state \<times> nat" where
  "cycle e s =
     bindE (step e (s\<lparr>clearCalls := clearCalls s + 1\<rparr>)) (\<lambda>s2.
       bindE (drawCells e s2) (\<lambda>cnt. Inr (s2, cnt)))"

text \<open>
  Line 100. In JavaScript a surface without area makes the quotient \<open>0 / 0\<close>, which is
  NaN, and a comparison with NaN is false; HOL's \<open>x / 0 = 0\<close> would make it true.
  The area is a multiple of a sixteenth and exact in a double. The quotient by it is
  rounded, but it differs from a tenth, when it does, by at least one part in ten times
  the number of pixels, far more than the rounding of a double for any canvas there can
  be: the comparison of the doubles is the comparison of the exact quotients.
\<close>

definition collapsed :: "env \<Rightarrow> nat \<Rightarrow> bool" where
  "collapsed e cnt =
     (let area = (of_nat (width e) / size_cell) * (of_nat (height e) / size_cell)
      in if area = 0 then False else of_nat cnt / area < 1 / 10)"

text \<open>
  \<open>update\<close> calls \<open>populateGrid\<close> when the population has collapsed, and \<open>populateGrid\<close>
  ends by calling \<open>update\<close>: the two call each other for as long as each new seeding
  collapses in its first step, which nothing bounds. \<open>None\<close> is the call that does not
  return; \<open>Some (Inl err)\<close> is the call that throws. The model puts no bound on the depth
  of the calls; an engine that has one ends a chain that is too long with a RangeError, and
  that call, like the one that does not return, reaches nothing that follows it.
\<close>

partial_function (option) update :: "env \<Rightarrow> state \<Rightarrow> (error + state) option" where
  "update e s =
     (case cycle e s of
        Inl err \<Rightarrow> Some (Inl err)
      | Inr (s2, cnt) \<Rightarrow>
          if collapsed e cnt
          then (case seedGrid e s2 of
                  Inl err \<Rightarrow> Some (Inl err)
                | Inr s3 \<Rightarrow> update e s3)
          else Some (Inr s2))"

declare update.simps [code]

definition populateGrid :: "env \<Rightarrow> state \<Rightarrow> (error + state) option" where
  "populateGrid e s =
     (case seedGrid e s of Inl err \<Rightarrow> Some (Inl err) | Inr s3 \<Rightarrow> update e s3)"

subsection \<open>The frame callback and the program\<close>

definition requestAnimationFrame :: "state \<Rightarrow> state" where
  "requestAnimationFrame s = s\<lparr>frameRequests := frameRequests s + 1\<rparr>"

text \<open>
  The timestamps are doubles and \<open>timestamp - startTime\<close> is the subtraction of doubles:
  the exact difference rounded to the nearest double, to the one with the even significand
  when two are equally near. \<open>expo q\<close> is the integer part of the binary logarithm of a
  positive \<open>q\<close>; a double of that magnitude is a multiple of \<open>2 powi (expo q - 52)\<close>,
  and of \<open>2 powi (- 1074)\<close> when it is subnormal. A difference of two finite doubles of
  the same sign does not overflow; anyhow the rounded value and the infinity that would
  stand for it are on the same side of 500.
\<close>

definition expo :: "rat \<Rightarrow> int" where
  "expo q =
     (if 1 \<le> q then int (floorlog 2 (nat \<lfloor>q\<rfloor>)) - 1
      else - int (floorlog 2 (nat \<lceil>1 / q\<rceil> - 1)))"

definition roundEven :: "rat \<Rightarrow> int" where
  "roundEven x =
     (let f = \<lfloor>x\<rfloor>; r = x - of_int f
      in if r < 1 / 2 then f
         else if 1 / 2 < r then f + 1
         else if even f then f else f + 1)"

definition round64 :: "rat \<Rightarrow> rat" where
  "round64 q =
     (if q = 0 then 0
      else let u = power_int 2 (max (expo \<bar>q\<bar>) (- 1022) - 52)
           in of_int (roundEven (q / u)) * u)"

definition minus64 :: "rat \<Rightarrow> rat \<Rightarrow> rat" where
  "minus64 a b = round64 (a - b)"

text \<open>
  \<open>start\<close> with the timestamp of the frame, a number of milliseconds. The elements of
  the page that show \<open>drawCount\<close>, the timestamp and the progress are left out.
\<close>

definition start :: "env \<Rightarrow> rat \<Rightarrow> state \<Rightarrow> (error + state) option" where
  "start e timestamp s =
     (let t0 = (case startTime s of None \<Rightarrow> timestamp | Some t \<Rightarrow> t);
          s1 = s\<lparr>startTime := Some t0\<rparr>;
          progress = minus64 timestamp t0
      in if progress > stepInMs
         then (case update e (s1\<lparr>drawCount := drawCount s1 + 1, startTime := Some timestamp\<rparr>) of
                 None \<Rightarrow> None
               | Some (Inl err) \<Rightarrow> Some (Inl err)
               | Some (Inr s2) \<Rightarrow> Some (Inr (requestAnimationFrame s2)))
         else Some (Inr (requestAnimationFrame s1)))"

text \<open>
  The globals as the script declares them, two distinct empty arrays, and its last two
  lines: \<open>populateGrid()\<close> and the first \<open>requestAnimationFrame(start)\<close>.
\<close>

definition initial :: state where
  "initial = \<lparr>heap = (\<lambda>r. []), nextAddr = 2, grid = 0, tempGrid = 1, randomCalls = 0,
     startTime = None, drawCount = 0, clearCalls = 0, frameRequests = 0\<rparr>"

definition main :: "env \<Rightarrow> (error + state) option" where
  "main e =
     (case populateGrid e initial of
        None \<Rightarrow> None
      | Some (Inl err) \<Rightarrow> Some (Inl err)
      | Some (Inr s) \<Rightarrow> Some (Inr (requestAnimationFrame s)))"

text \<open>
  The host then calls \<open>start\<close> once for each frame, with that frame's timestamp, for as
  long as the callback before it returned, having asked for the next frame.
\<close>

fun frames :: "env \<Rightarrow> rat list \<Rightarrow> state \<Rightarrow> (error + state) option" where
  "frames e [] s = Some (Inr s)"
| "frames e (t # ts) s =
     (case start e t s of
        None \<Rightarrow> None
      | Some (Inl err) \<Rightarrow> Some (Inl err)
      | Some (Inr s') \<Rightarrow> frames e ts s')"

definition run :: "env \<Rightarrow> rat list \<Rightarrow> (error + state) option" where
  "run e ts =
     (case main e of
        None \<Rightarrow> None
      | Some (Inl err) \<Rightarrow> Some (Inl err)
      | Some (Inr s) \<Rightarrow> frames e ts s)"

section \<open>Notions of the specification\<close>

subsection \<open>Grids\<close>

text \<open>
  A grid of \<open>W\<close> columns of \<open>H\<close> cells, each cell 0 or 1; the state of the cell at an
  integer coordinate, dead outside the grid; the sum of the states at the eight
  neighbouring coordinates; the number of live cells; the grid with no live cell.
\<close>

definition rect :: "nat \<Rightarrow> nat \<Rightarrow> array2 \<Rightarrow> bool" where
  "rect W H a = (length a = W \<and> (\<forall>c \<in> set a. length c = H))"

definition binary :: "array2 \<Rightarrow> bool" where
  "binary a = (\<forall>c \<in> set a. \<forall>v \<in> set c. v = Num 0 \<or> v = Num 1)"

definition stateAt :: "nat \<Rightarrow> nat \<Rightarrow> array2 \<Rightarrow> int \<Rightarrow> int \<Rightarrow> nat" where
  "stateAt W H a x y =
     (if 0 \<le> x \<and> x < int W \<and> 0 \<le> y \<and> y < int H
      then (case a ! nat x ! nat y of Undefined \<Rightarrow> 0 | Num n \<Rightarrow> nat n)
      else 0)"

definition offsets :: "(int \<times> int) list" where
  "offsets = [(-1, -1), (-1, 0), (-1, 1), (0, -1), (0, 1), (1, -1), (1, 0), (1, 1)]"

definition neighbourSum :: "nat \<Rightarrow> nat \<Rightarrow> array2 \<Rightarrow> int \<Rightarrow> int \<Rightarrow> nat" where
  "neighbourSum W H a x y = (\<Sum>(dx, dy) \<leftarrow> offsets. stateAt W H a (x + dx) (y + dy))"

definition liveCount :: "array2 \<Rightarrow> nat" where
  "liveCount a = (\<Sum>c \<leftarrow> a. \<Sum>v \<leftarrow> c. present v)"

definition deadGrid :: "nat \<Rightarrow> nat \<Rightarrow> array2" where
  "deadGrid W H = replicate W (replicate H (Num 0))"

subsection \<open>The range of the loops\<close>

text \<open>
  The number of integers \<open>x\<close> from 0 with \<open>x < width / size\<close>, and the same for the
  height; and a loop over a given list of indices that stops at the first error.
\<close>

definition cols :: "env \<Rightarrow> nat" where
  "cols e = nat \<lceil>of_nat (width e) / size_cell\<rceil>"

definition rows :: "env \<Rightarrow> nat" where
  "rows e = nat \<lceil>of_nat (height e) / size_cell\<rceil>"

fun foldE :: "(nat \<Rightarrow> 'a \<Rightarrow> error + 'a) \<Rightarrow> nat list \<Rightarrow> 'a \<Rightarrow> error + 'a" where
  "foldE f [] a = Inr a"
| "foldE f (x # xs) a = (case f x a of Inl e \<Rightarrow> Inl e | Inr a' \<Rightarrow> foldE f xs a')"

subsection \<open>Seeding\<close>

text \<open>
  The cell that the \<open>n\<close>-th call of \<open>Math.random\<close> decides, the grid seeded by the calls
  from the \<open>n\<close>-th on, column after column, and the state after a seeding: two new arrays
  at the next two addresses, the first seeded and named by \<open>grid\<close>, the second dead and
  named by \<open>tempGrid\<close>.
\<close>

definition coin :: "env \<Rightarrow> nat \<Rightarrow> val" where
  "coin e n = (if random e n > 1 / 2 then Num 1 else Num 0)"

definition seeded :: "env \<Rightarrow> nat \<Rightarrow> array2" where
  "seeded e n = map (\<lambda>x. map (\<lambda>y. coin e (n + x * rows e + y)) [0..<rows e]) [0..<cols e]"

definition freshGrids :: "env \<Rightarrow> state \<Rightarrow> state" where
  "freshGrids e s =
     s\<lparr>heap := (heap s)(nextAddr s := seeded e (randomCalls s),
                        nextAddr s + 1 := deadGrid (cols e) (rows e)),
       nextAddr := nextAddr s + 2,
       grid := nextAddr s,
       tempGrid := nextAddr s + 1,
       randomCalls := randomCalls s + cols e * rows e\<rparr>"

subsection \<open>Steps\<close>

text \<open>
  The synchronous step of the specification: every cell of the result is computed by the
  rule from one and the same state, the one before the step. And \<open>n\<close> steps in a row.
\<close>

definition syncStep :: "env \<Rightarrow> state \<Rightarrow> (error + val) list list" where
  "syncStep e s = map (\<lambda>x. map (\<lambda>y. updateCell s (int x) (int y)) [0..<rows e]) [0..<cols e]"

fun steps :: "env \<Rightarrow> nat \<Rightarrow> state \<Rightarrow> error + state" where
  "steps e 0 s = Inr s"
| "steps e (Suc n) s = bindE (step e s) (steps e n)"

text \<open>
  \<open>collapses e n s\<close> is defined when each of the next \<open>n\<close> cycles from \<open>s\<close> ends with
  a collapsed population, every one but the first on the grids seeded after the one before;
  it is then the state as seeded after the last of them.
\<close>

fun collapses :: "env \<Rightarrow> nat \<Rightarrow> state \<Rightarrow> state option" where
  "collapses e 0 s = Some s"
| "collapses e (Suc n) s =
     (case cycle e s of
        Inl err \<Rightarrow> None
      | Inr (sn, cnt) \<Rightarrow> if collapsed e cnt then collapses e n (freshGrids e sn) else None)"

text \<open>The part of the state that is not the store.\<close>

definition frame :: "state \<Rightarrow> addr \<times> addr \<times> addr \<times> nat \<times> rat option \<times> nat \<times> nat \<times> nat" where
  "frame s = (nextAddr s, grid s, tempGrid s, randomCalls s, startTime s, drawCount s,
     clearCalls s, frameRequests s)"

text \<open>What is observed of a run: the current grid, its synchronous image, the counters.\<close>

definition gridOf :: "(error + state) option \<Rightarrow> (error + array2) option" where
  "gridOf r = map_option (map_sum id (\<lambda>s. heap s (grid s))) r"

definition syncOf :: "env \<Rightarrow> (error + state) option \<Rightarrow> (error + (error + val) list list) option" where
  "syncOf e r = map_option (map_sum id (syncStep e)) r"

definition clearsOf :: "(error + state) option \<Rightarrow> (error + nat) option" where
  "clearsOf r = map_option (map_sum id clearCalls) r"

definition returned :: "(error + state) option \<Rightarrow> bool" where
  "returned r = (case r of Some (Inr s) \<Rightarrow> True | _ \<Rightarrow> False)"

text \<open>
  The first cycle of the program, on the grids as seeded, with what is observed of a
  cycle: the count of live cells and the number of cells of the new grid.
\<close>

definition firstCycle :: "env \<Rightarrow> error + state \<times> nat" where
  "firstCycle e = bindE (seedGrid e initial) (cycle e)"

definition countOf :: "error + state \<times> nat \<Rightarrow> error + nat" where
  "countOf r = map_sum id snd r"

definition cellsOf :: "error + state \<times> nat \<Rightarrow> error + nat" where
  "cellsOf r = map_sum id (\<lambda>(s, cnt). length (concat (heap s (grid s)))) r"

subsection \<open>Examples\<close>

text \<open>
  A canvas of 12 by 12 pixels has 3 by 3 cells. In \<open>rowSeed\<close> the second of every three
  calls of \<open>Math.random\<close> exceeds one half, which seeds the cells \<open>(0,1)\<close>, \<open>(1,1)\<close>,
  \<open>(2,1)\<close>; in \<open>columnSeed\<close> the fourth to sixth of every nine do, which seeds the
  column \<open>x = 1\<close>.
\<close>

definition rowSeed :: env where
  "rowSeed = \<lparr>width = 12, height = 12,
     random = (\<lambda>n. if n mod 3 = 1 then 3 / 4 else 1 / 4)\<rparr>"

definition columnSeed :: env where
  "columnSeed = \<lparr>width = 12, height = 12,
     random = (\<lambda>n. if 3 \<le> n mod 9 \<and> n mod 9 \<le> 5 then 3 / 4 else 1 / 4)\<rparr>"

text \<open>
  Two states of 3 by 3 cells with separate arrays: \<open>blinker\<close> with three live cells in
  a line, \<open>barren\<close> with no live cell. And \<open>aliased\<close>, which is \<open>blinker\<close> after
  \<open>grid = tempGrid\<close>: both globals name the array at 0.
\<close>

definition blinker :: state where
  "blinker = initial\<lparr>heap := (heap initial)
     (0 := [[Num 0, Num 1, Num 0], [Num 0, Num 1, Num 0], [Num 0, Num 1, Num 0]],
      1 := deadGrid 3 3)\<rparr>"

definition barren :: state where
  "barren = initial\<lparr>heap := (heap initial)(0 := deadGrid 3 3, 1 := deadGrid 3 3)\<rparr>"

definition aliased :: state where
  "aliased = blinker\<lparr>tempGrid := 0\<rparr>"

text \<open>
  A cell of state \<open>c\<close> in the middle of 3 by 3 cells, with the first \<open>n\<close> of its eight
  neighbours alive.
\<close>

definition around :: "int \<Rightarrow> nat \<Rightarrow> state" where
  "around c n = initial\<lparr>heap := (heap initial)
     (0 := [[Num (if 0 < n then 1 else 0), Num (if 1 < n then 1 else 0), Num (if 2 < n then 1 else 0)],
            [Num (if 3 < n then 1 else 0), Num c, Num (if 4 < n then 1 else 0)],
            [Num (if 5 < n then 1 else 0), Num (if 6 < n then 1 else 0), Num (if 7 < n then 1 else 0)]],
      1 := deadGrid 3 3)\<rparr>"

text \<open>The doubles nearest to 0.1 and to 500.1.\<close>

definition tenth :: rat where
  "tenth = 3602879701896397 / 2 ^ 55"

definition fiveHundredAndTenth :: rat where
  "fiveHundredAndTenth = 4398926120406221 / 2 ^ 43"

text \<open>The canvas of 12 by 12 pixels on which \<open>Math.random\<close> never exceeds one half.\<close>

definition noLuck :: env where
  "noLuck = \<lparr>width = 12, height = 12, random = (\<lambda>n. 1 / 4)\<rparr>"

text \<open>
  Canvases whose sides are not multiples of four: 6 by 6 pixels, with every cell seeded
  alive; 15 by 15 pixels (4 by 4 cells) and 13 by 12 pixels (4 by 3 cells), each seeded with
  the diagonal \<open>(0,0)\<close>, \<open>(1,1)\<close>, \<open>(2,2)\<close>, of which the middle cell survives the first
  step. On the first of the two a second seeding would give the square of the four cells
  with \<open>x\<close> and \<open>y\<close> below 2, which is stable.
\<close>

definition sixSquare :: env where
  "sixSquare = \<lparr>width = 6, height = 6, random = (\<lambda>n. 3 / 4)\<rparr>"

definition fifteenSquare :: env where
  "fifteenSquare = \<lparr>width = 15, height = 15,
     random = (\<lambda>n. if n \<in> {0, 5, 10, 16, 17, 20, 21} then 3 / 4 else 1 / 4)\<rparr>"

definition thirteenByTwelve :: env where
  "thirteenByTwelve = \<lparr>width = 13, height = 12,
     random = (\<lambda>n. if n = 0 \<or> n = 4 \<or> n = 8 then 3 / 4 else 1 / 4)\<rparr>"

section \<open>Counting neighbours\<close>

lemma present_le: "present v \<le> 1"
  by (simp add: present_def)

lemma countNeighbours_le: "countNeighbours s x y \<le> 8"
proof -
  have "countNeighbours s x y \<le> 1 + 1 + 1 + 1 + 1 + 1 + 1 + 1"
    unfolding countNeighbours_def
    by (intro add_mono present_le)
  then show ?thesis by simp
qed

lemma rect_nth: "rect W H a = (length a = W \<and> (\<forall>x < W. length (a ! x) = H))"
  by (auto simp: rect_def all_set_conv_all_nth)

lemma present_cellValue:
  assumes "rect W H (heap s (grid s))" and "binary (heap s (grid s))"
  shows "present (cellValue s x y) = stateAt W H (heap s (grid s)) x y"
proof (cases "0 \<le> x \<and> x < int W \<and> 0 \<le> y \<and> y < int H")
  case True
  with assms(1) have len: "nat x < length (heap s (grid s))"
    and col: "heap s (grid s) ! nat x \<in> set (heap s (grid s))"
    by (auto simp: rect_def)
  with assms(1) True have leny: "nat y < length (heap s (grid s) ! nat x)"
    by (auto simp: rect_def)
  then have "heap s (grid s) ! nat x ! nat y \<in> set (heap s (grid s) ! nat x)"
    by simp
  with assms(2) col
  have "heap s (grid s) ! nat x ! nat y = Num 0 \<or> heap s (grid s) ! nat x ! nat y = Num 1"
    unfolding binary_def by blast
  with True len leny show ?thesis
    by (auto simp: present_def cellValue_def index2_def stateAt_def Let_def)
next
  case False
  with assms(1) show ?thesis
    by (auto simp: present_def cellValue_def index2_def stateAt_def Let_def rect_def)
qed

lemma blinker_grid:
  "heap blinker (grid blinker) =
     [[Num 0, Num 1, Num 0], [Num 0, Num 1, Num 0], [Num 0, Num 1, Num 0]]"
  by (simp add: blinker_def initial_def)

lemma blinker_rect: "rect 3 3 (heap blinker (grid blinker))"
  by (simp add: blinker_grid rect_def)

lemma blinker_binary: "binary (heap blinker (grid blinker))"
  by (simp add: blinker_grid binary_def)

text \<open>
  C4: on a grid of \<open>W\<close> by \<open>H\<close> cells that are 0 or 1, \<open>countNeighbours\<close> at any integer
  coordinate, on the border and in the corners too, is the sum of the states at the eight
  offsets, where a coordinate outside the grid counts 0; the sum is at most 8.
\<close>

theorem countNeighbours_sum:
  assumes "rect W H (heap s (grid s))" and "binary (heap s (grid s))"
  shows "countNeighbours s x y = neighbourSum W H (heap s (grid s)) x y \<and>
         neighbourSum W H (heap s (grid s)) x y \<le> 8"
proof -
  have "countNeighbours s x y = neighbourSum W H (heap s (grid s)) x y"
    by (simp add: countNeighbours_def neighbourSum_def offsets_def
        present_cellValue [OF assms])
  with countNeighbours_le [of s x y] show ?thesis
    by simp
qed

theorem countNeighbours_sum_witness:
  "rect 3 3 (heap blinker (grid blinker)) \<and> binary (heap blinker (grid blinker)) \<and>
   countNeighbours blinker 0 0 = neighbourSum 3 3 (heap blinker (grid blinker)) 0 0 \<and>
   neighbourSum 3 3 (heap blinker (grid blinker)) 0 0 = 2"
proof -
  have "neighbourSum 3 3 (heap blinker (grid blinker)) 0 0 = 2"
    by (simp add: blinker_grid neighbourSum_def offsets_def stateAt_def)
  with countNeighbours_sum [OF blinker_rect blinker_binary, of 0 0]
    blinker_rect blinker_binary
  show ?thesis by simp
qed

text \<open>
  C9: \<open>cellValue\<close> returns a value at every pair of integers. Where \<open>x\<close> is not an index
  of a column the read throws, and the handler gives 0; where \<open>x\<close> is one and \<open>y\<close> is not an
  index of that column the read gives \<open>undefined\<close>, which counts as no neighbour. So
  \<open>countNeighbours\<close> is a number from 0 to 8 at every coordinate of every state.
\<close>

theorem cellValue_total:
  "(x < 0 \<or> int (length (heap s (grid s))) \<le> x \<longrightarrow>
      index2 (heap s (grid s)) x y = Inl TypeError \<and> cellValue s x y = Num 0) \<and>
   (0 \<le> x \<and> x < int (length (heap s (grid s))) \<and>
      (y < 0 \<or> int (length (heap s (grid s) ! nat x)) \<le> y) \<longrightarrow>
      index2 (heap s (grid s)) x y = Inr Undefined \<and> cellValue s x y = Undefined \<and>
      present (cellValue s x y) = 0) \<and>
   countNeighbours s x y \<le> 8"
  by (auto simp: countNeighbours_le cellValue_def index2_def present_def)

theorem cellValue_total_witness:
  "index2 (heap blinker (grid blinker)) (- 1) 1 = Inl TypeError \<and>
   cellValue blinker (- 1) 1 = Num 0 \<and>
   index2 (heap blinker (grid blinker)) 1 3 = Inr Undefined \<and>
   cellValue blinker 1 3 = Undefined \<and>
   countNeighbours blinker (- 1) 1 \<le> 8"
  using cellValue_total [of "- 1" blinker 1] cellValue_total [of 1 blinker 3]
  by (simp add: blinker_grid)

section \<open>The rule\<close>

text \<open>
  The table of the rule, on a dead and on a live cell with 0 to 8 live neighbours: a
  birth at 3, survival at 2 and 3.
\<close>

lemma rule_table:
  "map (\<lambda>n. countNeighbours (around 0 n) 1 1) [0..<9] = [0, 1, 2, 3, 4, 5, 6, 7, 8] \<and>
   map (\<lambda>n. countNeighbours (around 1 n) 1 1) [0..<9] = [0, 1, 2, 3, 4, 5, 6, 7, 8] \<and>
   map (\<lambda>n. updateCell (around 0 n) 1 1) [0..<9] =
     [Inr (Num 0), Inr (Num 0), Inr (Num 0), Inr (Num 1), Inr (Num 0), Inr (Num 0),
      Inr (Num 0), Inr (Num 0), Inr (Num 0)] \<and>
   map (\<lambda>n. updateCell (around 1 n) 1 1) [0..<9] =
     [Inr (Num 0), Inr (Num 0), Inr (Num 1), Inr (Num 1), Inr (Num 0), Inr (Num 0),
      Inr (Num 0), Inr (Num 0), Inr (Num 0)]"
  by code_simp

text \<open>
  C3: for a cell whose state \<open>c\<close> is 0 or 1, \<open>updateCell\<close> returns 0 when the count of
  neighbours is above 3 or below 2, 1 when the cell is dead and the count is 3, and \<open>c\<close>
  otherwise: a live cell with 2 or 3 neighbours lives, a dead cell whose count is not 3
  stays dead. The count is between 0 and 8 in every state.
\<close>

theorem updateCell_rule:
  assumes "index2 (heap s (grid s)) x y = Inr (Num c)" and "c = 0 \<or> c = 1"
  shows "updateCell s x y =
           Inr (Num (if countNeighbours s x y > 3 \<or> countNeighbours s x y < 2 then 0
                     else if c = 0 \<and> countNeighbours s x y = 3 then 1
                     else c)) \<and>
         (c = 1 \<and> (countNeighbours s x y = 2 \<or> countNeighbours s x y = 3) \<longrightarrow>
            updateCell s x y = Inr (Num 1)) \<and>
         (c = 0 \<and> countNeighbours s x y \<noteq> 3 \<longrightarrow> updateCell s x y = Inr (Num 0)) \<and>
         countNeighbours s x y \<le> 8"
  using assms countNeighbours_le [of s x y]
  by (auto simp: updateCell_def bindE_def Let_def)

lemma blinker_counts:
  "countNeighbours blinker 1 1 = 2" "countNeighbours blinker 1 0 = 3"
  by (simp_all add: blinker_grid countNeighbours_def cellValue_def index2_def present_def)

theorem updateCell_rule_witness:
  "index2 (heap blinker (grid blinker)) 1 1 = Inr (Num 1) \<and>
   countNeighbours blinker 1 1 = 2 \<and> updateCell blinker 1 1 = Inr (Num 1) \<and>
   index2 (heap blinker (grid blinker)) 1 0 = Inr (Num 0) \<and>
   countNeighbours blinker 1 0 = 3 \<and> updateCell blinker 1 0 = Inr (Num 1)"
proof -
  have a: "index2 (heap blinker (grid blinker)) 1 1 = Inr (Num 1)"
    and d: "index2 (heap blinker (grid blinker)) 1 0 = Inr (Num 0)"
    by (simp_all add: blinker_grid index2_def)
  from updateCell_rule [OF a] updateCell_rule [OF d] a d blinker_counts
  show ?thesis by simp
qed

section \<open>The loops\<close>

lemma less_bound_iff: "(of_nat i < (bound :: rat)) = (i < nat \<lceil>bound\<rceil>)"
proof -
  have "(of_nat i < bound) = (of_int (int i) < bound)" by simp
  also have "\<dots> = (int i < \<lceil>bound\<rceil>)" by (simp only: less_ceiling_iff)
  also have "\<dots> = (i < nat \<lceil>bound\<rceil>)" by linarith
  finally show ?thesis .
qed

lemma forLoopE_foldE: "forLoopE bound i body a = foldE body [i..<nat \<lceil>bound\<rceil>] a"
proof (induction bound i body a rule: forLoopE.induct)
  case (1 bound i body a)
  show ?case
  proof (cases "i < nat \<lceil>bound\<rceil>")
    case True
    then have l: "[i..<nat \<lceil>bound\<rceil>] = i # [i + 1..<nat \<lceil>bound\<rceil>]"
      by (simp add: upt_conv_Cons)
    from True have b: "of_nat i < bound" by (simp add: less_bound_iff)
    show ?thesis
    proof (cases "body i a")
      case (Inl err)
      with b l show ?thesis by (subst forLoopE.simps) simp
    next
      case (Inr a')
      with b l "1.IH" [OF b Inr] show ?thesis by (subst forLoopE.simps) simp
    qed
  next
    case False
    then have "\<not> of_nat i < bound" by (simp add: less_bound_iff)
    with False show ?thesis by (subst forLoopE.simps) simp
  qed
qed

lemma forLoopE_body: "forLoopE bound i body = foldE body [i..<nat \<lceil>bound\<rceil>]"
  by (rule ext) (rule forLoopE_foldE)

lemma ceiling_quarter: "nat \<lceil>(of_nat w :: rat) / size_cell\<rceil> = (w + 3) div 4"
proof -
  have "\<lceil>(of_nat w :: rat) / size_cell\<rceil> = \<lceil>(of_int (int w) :: rat) / of_int 4\<rceil>"
    by (simp add: size_cell_def)
  also have "\<dots> = - (- int w div 4)"
    by (simp only: ceiling_divide_eq_div)
  also have "\<dots> = (int w + 3) div 4"
    by linarith
  finally show ?thesis
    by (simp add: nat_div_distrib)
qed

lemma foldE_upt_inv:
  assumes "\<And>k a. i \<le> k \<Longrightarrow> k < n \<Longrightarrow> P k a \<Longrightarrow> \<exists>a'. f k a = Inr a' \<and> P (Suc k) a'"
    and "P i a" and "i \<le> n"
  shows "\<exists>a'. foldE f [i..<n] a = Inr a' \<and> P n a'"
  using assms
proof (induction "n - i" arbitrary: i a)
  case 0
  then show ?case by simp
next
  case (Suc d)
  then have lt: "i < n" by linarith
  from Suc.prems(1) [OF le_refl lt Suc.prems(2)]
  obtain a1 where a1: "f i a = Inr a1" "P (Suc i) a1" by blast
  have "\<exists>a'. foldE f [Suc i..<n] a1 = Inr a' \<and> P n a'"
  proof (rule Suc.hyps(1))
    show "d = n - Suc i" using Suc.hyps(2) by linarith
    show "\<And>k a. Suc i \<le> k \<Longrightarrow> k < n \<Longrightarrow> P k a \<Longrightarrow> \<exists>a'. f k a = Inr a' \<and> P (Suc k) a'"
      using Suc.prems(1) by simp
    show "P (Suc i) a1" by (rule a1(2))
    show "Suc i \<le> n" using lt by simp
  qed
  with a1(1) lt show ?case by (simp add: upt_conv_Cons)
qed

lemma foldE_preserve:
  assumes "\<And>k a a'. f k a = Inr a' \<Longrightarrow> g a' = g a"
    and "foldE f xs a = Inr a'"
  shows "g a' = g a"
  using assms(2)
proof (induction xs arbitrary: a)
  case Nil
  then show ?case by simp
next
  case (Cons x xs)
  then obtain a1 where a1: "f x a = Inr a1" "foldE f xs a1 = Inr a'"
    by (auto split: sum.splits)
  from Cons.IH [OF a1(2)] assms(1) [OF a1(1)] show ?case by simp
qed

lemma initArray_dead: "initArray w h = Inr (deadGrid (nat \<lceil>w\<rceil>) (nat \<lceil>h\<rceil>))"
proof -
  define H where "H = nat \<lceil>h\<rceil>"
  define zc where "zc = replicate H (Num 0)"
  have inner: "\<exists>arr'. foldE (\<lambda>y arr. store2 arr k y (Num 0)) [0..<H] (replicate k zc @ [[]]) = Inr arr'
      \<and> arr' = replicate k zc @ [replicate H (Num 0)]" for k
  proof (rule foldE_upt_inv [where P = "\<lambda>j arr. arr = replicate k zc @ [replicate j (Num 0)]"])
    fix j arr
    assume "arr = replicate k zc @ [replicate j (Num 0)]"
    then show "\<exists>a'. store2 arr k j (Num 0) = Inr a' \<and> a' = replicate k zc @ [replicate (Suc j) (Num 0)]"
      by (simp add: store2_def assign_def nth_append replicate_append_same list_update_append)
  qed simp_all
  have "\<exists>arr. foldE (\<lambda>x arr. foldE (\<lambda>y arr. store2 arr x y (Num 0)) [0..<H] (assign [] arr x []))
      [0..<nat \<lceil>w\<rceil>] [] = Inr arr \<and> arr = replicate (nat \<lceil>w\<rceil>) zc"
  proof (rule foldE_upt_inv [where P = "\<lambda>k arr. arr = replicate k zc"])
    fix k arr
    assume "arr = replicate k zc"
    then have "assign [] arr k [] = replicate k zc @ [[]]"
      by (simp add: assign_def)
    with inner [of k]
    show "\<exists>a'. foldE (\<lambda>y arr. store2 arr k y (Num 0)) [0..<H] (assign [] arr k []) = Inr a' \<and>
        a' = replicate (Suc k) zc"
      by (simp add: zc_def replicate_append_same)
  qed simp_all
  then show ?thesis
    by (simp add: initArray_def forLoopE_foldE H_def zc_def deadGrid_def)
qed

section \<open>Stores into a rectangular array\<close>

lemma rect_deadGrid: "rect W H (deadGrid W H)"
  by (simp add: rect_def deadGrid_def)

lemma rect_store:
  assumes "rect W H a" and "x < W" and "y < H"
  shows "store2 a x y v = Inr (a[x := (a ! x)[y := v]])"
    and "rect W H (a[x := (a ! x)[y := v]])"
  using assms by (auto simp: rect_nth store2_def assign_def nth_list_update)

lemma nth_store:
  assumes "rect W H a" and "x < W" and "y < H" and "x' < W" and "y' < H"
  shows "a[x := (a ! x)[y := v]] ! x' ! y' = (if x' = x \<and> y' = y then v else a ! x' ! y')"
  using assms by (auto simp: rect_nth nth_list_update)

section \<open>Seeding\<close>

lemma seedCell_inner:
  fixes e :: env and s4 :: state and k :: nat
  defines "W \<equiv> cols e" and "H \<equiv> rows e" and "r0 \<equiv> randomCalls s4"
  assumes k: "k < W"
    and start: "s' = s4\<lparr>randomCalls := r0 + k * H, heap := (heap s4)(grid s4 := A)\<rparr>"
      "rect W H A" "\<forall>x<W. \<forall>y<H. A ! x ! y = (if x < k then coin e (r0 + x * H + y) else Num 0)"
  shows "\<exists>s'' B. foldE (\<lambda>y. seedCell e k y) [0..<H] s' = Inr s'' \<and>
      s'' = s4\<lparr>randomCalls := r0 + Suc k * H, heap := (heap s4)(grid s4 := B)\<rparr> \<and>
      rect W H B \<and> (\<forall>x<W. \<forall>y<H. B ! x ! y = (if x < Suc k then coin e (r0 + x * H + y) else Num 0))"
proof -
  let ?Q = "\<lambda>j s''. \<exists>B. s'' = s4\<lparr>randomCalls := r0 + k * H + j, heap := (heap s4)(grid s4 := B)\<rparr> \<and>
      rect W H B \<and>
      (\<forall>x<W. \<forall>y<H. B ! x ! y = (if x < k \<or> (x = k \<and> y < j) then coin e (r0 + x * H + y) else Num 0))"
  have "\<exists>s''. foldE (\<lambda>y. seedCell e k y) [0..<H] s' = Inr s'' \<and> ?Q H s''"
  proof (rule foldE_upt_inv [where P = ?Q])
    fix j s1
    assume j: "j < H" and "?Q j s1"
    then obtain B where B: "s1 = s4\<lparr>randomCalls := r0 + k * H + j, heap := (heap s4)(grid s4 := B)\<rparr>"
      "rect W H B"
      "\<forall>x<W. \<forall>y<H. B ! x ! y = (if x < k \<or> (x = k \<and> y < j) then coin e (r0 + x * H + y) else Num 0)"
      by blast
    show "\<exists>s2. seedCell e k j s1 = Inr s2 \<and> ?Q (Suc j) s2"
    proof (cases "random e (r0 + k * H + j) > 1 / 2")
      case True
      let ?B = "B[k := (B ! k)[j := Num 1]]"
      from True B(1) rect_store(1) [OF B(2) k j, of "Num 1"]
      have "seedCell e k j s1 = Inr (s4\<lparr>randomCalls := r0 + k * H + Suc j, heap := (heap s4)(grid s4 := ?B)\<rparr>)"
        by (simp add: seedCell_def writeCell_def bindE_def)
      moreover have "rect W H ?B" by (rule rect_store(2) [OF B(2) k j])
      moreover have "\<forall>x<W. \<forall>y<H. ?B ! x ! y = (if x < k \<or> (x = k \<and> y < Suc j) then coin e (r0 + x * H + y) else Num 0)"
        using B(3) True by (auto simp: nth_store [OF B(2) k j] coin_def less_Suc_eq)
      ultimately show ?thesis by blast
    next
      case False
      from False B(1)
      have "seedCell e k j s1 = Inr (s4\<lparr>randomCalls := r0 + k * H + Suc j, heap := (heap s4)(grid s4 := B)\<rparr>)"
        by (simp add: seedCell_def)
      moreover have "\<forall>x<W. \<forall>y<H. B ! x ! y = (if x < k \<or> (x = k \<and> y < Suc j) then coin e (r0 + x * H + y) else Num 0)"
        using B(3) False by (auto simp: coin_def less_Suc_eq)
      ultimately show ?thesis using B(2) by blast
    qed
  next
    show "?Q 0 s'" using start by auto
  qed simp
  then obtain s'' B where f: "foldE (\<lambda>y. seedCell e k y) [0..<H] s' = Inr s''"
    and s'': "s'' = s4\<lparr>randomCalls := r0 + k * H + H, heap := (heap s4)(grid s4 := B)\<rparr>"
    and r: "rect W H B"
    and c: "\<forall>x<W. \<forall>y<H. B ! x ! y = (if x < k \<or> (x = k \<and> y < H) then coin e (r0 + x * H + y) else Num 0)"
    by blast
  from c have "\<forall>x<W. \<forall>y<H. B ! x ! y = (if x < Suc k then coin e (r0 + x * H + y) else Num 0)"
    by (auto simp: less_Suc_eq)
  moreover from s'' have "s'' = s4\<lparr>randomCalls := r0 + Suc k * H, heap := (heap s4)(grid s4 := B)\<rparr>"
    by (simp add: add.commute add.left_commute)
  ultimately show ?thesis using f r by blast
qed

lemma seedGrid_eq:
  "seedGrid e s = Inr (s\<lparr>heap := (heap s)(nextAddr s := seeded e (randomCalls s),
       nextAddr s + 1 := deadGrid (cols e) (rows e)),
     nextAddr := nextAddr s + 2, grid := nextAddr s, tempGrid := nextAddr s + 1,
     randomCalls := randomCalls s + cols e * rows e\<rparr>)"
proof -
  let ?W = "cols e" and ?H = "rows e"
  define s4 where "s4 = s\<lparr>heap := (heap s)(nextAddr s := deadGrid ?W ?H, nextAddr s + 1 := deadGrid ?W ?H),
     nextAddr := nextAddr s + 2, grid := nextAddr s, tempGrid := nextAddr s + 1\<rparr>"
  let ?r0 = "randomCalls s4"
  let ?P = "\<lambda>k s'. \<exists>A. s' = s4\<lparr>randomCalls := ?r0 + k * ?H, heap := (heap s4)(grid s4 := A)\<rparr> \<and>
      rect ?W ?H A \<and> (\<forall>x<?W. \<forall>y<?H. A ! x ! y = (if x < k then coin e (?r0 + x * ?H + y) else Num 0))"
  have "\<exists>s'. foldE (\<lambda>x. foldE (\<lambda>y. seedCell e x y) [0..<?H]) [0..<?W] s4 = Inr s' \<and> ?P ?W s'"
  proof (rule foldE_upt_inv [where P = ?P])
    fix k s1
    assume k: "k < ?W" and "?P k s1"
    then obtain A where A: "s1 = s4\<lparr>randomCalls := ?r0 + k * ?H, heap := (heap s4)(grid s4 := A)\<rparr>"
      "rect ?W ?H A" "\<forall>x<?W. \<forall>y<?H. A ! x ! y = (if x < k then coin e (?r0 + x * ?H + y) else Num 0)"
      by blast
    from seedCell_inner [OF k A]
    show "\<exists>s2. foldE (\<lambda>y. seedCell e k y) [0..<?H] s1 = Inr s2 \<and> ?P (Suc k) s2"
      by blast
  next
    have "heap s4 (grid s4) = deadGrid ?W ?H"
      by (simp add: s4_def)
    then have "(heap s4)(grid s4 := deadGrid ?W ?H) = heap s4"
      by (simp only: fun_upd_idem_iff)
    then have "s4 = s4\<lparr>randomCalls := ?r0 + 0 * ?H, heap := (heap s4)(grid s4 := deadGrid ?W ?H)\<rparr>"
      by simp
    moreover have "\<forall>x<?W. \<forall>y<?H. deadGrid ?W ?H ! x ! y = (if x < 0 then coin e (?r0 + x * ?H + y) else Num 0)"
      by (simp add: deadGrid_def)
    ultimately show "?P 0 s4" using rect_deadGrid [of ?W ?H] by blast
  qed simp
  then obtain s' A where f: "foldE (\<lambda>x. foldE (\<lambda>y. seedCell e x y) [0..<?H]) [0..<?W] s4 = Inr s'"
    and s': "s' = s4\<lparr>randomCalls := ?r0 + ?W * ?H, heap := (heap s4)(grid s4 := A)\<rparr>"
    and r: "rect ?W ?H A"
    and c: "\<forall>x<?W. \<forall>y<?H. A ! x ! y = (if x < ?W then coin e (?r0 + x * ?H + y) else Num 0)"
    by blast
  have "A = seeded e ?r0"
  proof (rule nth_equalityI)
    show "length A = length (seeded e ?r0)"
      using r by (simp add: rect_nth seeded_def)
  next
    fix x assume "x < length A"
    with r have x: "x < ?W" by (simp add: rect_nth)
    show "A ! x = seeded e ?r0 ! x"
    proof (rule nth_equalityI)
      show "length (A ! x) = length (seeded e ?r0 ! x)"
        using r x by (simp add: rect_nth seeded_def)
    next
      fix y assume "y < length (A ! x)"
      with r x have "y < ?H" by (simp add: rect_nth)
      with c x show "A ! x ! y = seeded e ?r0 ! x ! y"
        by (simp add: seeded_def)
    qed
  qed
  moreover have "?r0 = randomCalls s" by (simp add: s4_def)
  moreover have "(heap s4)(grid s4 := B) = (heap s)(nextAddr s := B, nextAddr s + 1 := deadGrid ?W ?H)" for B
    by (rule ext) (simp add: s4_def)
  ultimately have "s' = s\<lparr>heap := (heap s)(nextAddr s := seeded e (randomCalls s),
       nextAddr s + 1 := deadGrid ?W ?H),
     nextAddr := nextAddr s + 2, grid := nextAddr s, tempGrid := nextAddr s + 1,
     randomCalls := randomCalls s + ?W * ?H\<rparr>"
    using s' by (simp add: s4_def)
  moreover have "seedGrid e s = foldE (\<lambda>x. foldE (\<lambda>y. seedCell e x y) [0..<?H]) [0..<?W] s4"
    by (cases s) (simp add: seedGrid_def initArray_dead forLoopE_body bindE_def alloc_def s4_def
        cols_def rows_def)
  ultimately show ?thesis using f by simp
qed

section \<open>The step on a dead grid\<close>

lemma present_dead:
  assumes "heap s (grid s) = deadGrid W H"
  shows "present (cellValue s x y) = 0"
  using assms by (auto simp: cellValue_def index2_def deadGrid_def present_def Let_def)

lemma countNeighbours_dead:
  assumes "heap s (grid s) = deadGrid W H"
  shows "countNeighbours s x y = 0"
  by (simp add: countNeighbours_def present_dead [OF assms])

lemma updateCell_dead:
  assumes "heap s (grid s) = deadGrid W H"
  shows "updateCell s x y = Inr (Num 0)"
  by (simp add: updateCell_def countNeighbours_dead [OF assms])

lemma deadGrid_store:
  assumes "x < W" and "y < H"
  shows "(deadGrid W H)[x := (deadGrid W H ! x)[y := Num 0]] = deadGrid W H"
proof -
  have "(replicate H (Num 0))[y := Num 0] = replicate H (Num 0)"
    using assms(2) by (intro nth_equalityI) (auto simp: nth_list_update)
  moreover have "(replicate W c)[x := c] = replicate W c" for c :: "val list"
    using assms(1) by (intro nth_equalityI) (auto simp: nth_list_update)
  ultimately show ?thesis
    using assms by (simp add: deadGrid_def)
qed

lemma deadGrid_nth:
  assumes "rect W H A" and "\<forall>x<W. \<forall>y<H. A ! x ! y = Num 0"
  shows "A = deadGrid W H"
proof (rule nth_equalityI)
  show "length A = length (deadGrid W H)"
    using assms(1) by (simp add: rect_nth deadGrid_def)
next
  fix x assume "x < length A"
  with assms(1) have x: "x < W" by (simp add: rect_nth)
  show "A ! x = deadGrid W H ! x"
  proof (rule nth_equalityI)
    show "length (A ! x) = length (deadGrid W H ! x)"
      using assms(1) x by (simp add: rect_nth deadGrid_def)
  next
    fix y assume "y < length (A ! x)"
    with assms(1) x have "y < H" by (simp add: rect_nth)
    with assms(2) x show "A ! x ! y = deadGrid W H ! x ! y"
      by (simp add: deadGrid_def)
  qed
qed

lemma stepCell_dead:
  assumes s1: "s1 = s\<lparr>heap := (heap s)(tempGrid s := A)\<rparr>"
    and dead: "heap s1 (grid s1) = deadGrid W H"
    and r: "rect W H A" and x: "x < W" and y: "y < H"
  shows "stepCell x y s1 = Inr (s\<lparr>heap := (heap s)(tempGrid s := A[x := (A ! x)[y := Num 0]])\<rparr>)"
    and "heap (s\<lparr>heap := (heap s)(tempGrid s := A[x := (A ! x)[y := Num 0]])\<rparr>) (grid s) = deadGrid W H"
proof -
  have "updateCell s1 (int x) (int y) = Inr (Num 0)"
    by (rule updateCell_dead [OF dead])
  with rect_store(1) [OF r x y, of "Num 0"] s1
  show "stepCell x y s1 = Inr (s\<lparr>heap := (heap s)(tempGrid s := A[x := (A ! x)[y := Num 0]])\<rparr>)"
    by (simp add: stepCell_def bindE_def writeCell_def)
  from dead s1 deadGrid_store [OF x y]
  show "heap (s\<lparr>heap := (heap s)(tempGrid s := A[x := (A ! x)[y := Num 0]])\<rparr>) (grid s) = deadGrid W H"
    by (cases "tempGrid s = grid s") simp_all
qed

lemma stepCells_dead:
  assumes dead: "heap s (grid s) = deadGrid (cols e) (rows e)"
    and r: "rect (cols e) (rows e) (heap s (tempGrid s))"
  shows "stepCells e s = Inr (s\<lparr>heap := (heap s)(tempGrid s := deadGrid (cols e) (rows e))\<rparr>)"
proof -
  let ?W = "cols e" and ?H = "rows e"
  let ?I = "\<lambda>A s1. s1 = s\<lparr>heap := (heap s)(tempGrid s := A)\<rparr> \<and> rect ?W ?H A \<and>
      heap s1 (grid s1) = deadGrid ?W ?H"
  let ?P = "\<lambda>k s1. \<exists>A. ?I A s1 \<and> (\<forall>x<?W. \<forall>y<?H. x < k \<longrightarrow> A ! x ! y = Num 0)"
  have "\<exists>s'. foldE (\<lambda>x. foldE (\<lambda>y. stepCell x y) [0..<?H]) [0..<?W] s = Inr s' \<and> ?P ?W s'"
  proof (rule foldE_upt_inv [where P = ?P])
    fix k s1
    assume k: "k < ?W" and "?P k s1"
    then obtain A where A: "?I A s1" "\<forall>x<?W. \<forall>y<?H. x < k \<longrightarrow> A ! x ! y = Num 0"
      by blast
    let ?Q = "\<lambda>j s2. \<exists>B. ?I B s2 \<and>
      (\<forall>x<?W. \<forall>y<?H. x < k \<or> (x = k \<and> y < j) \<longrightarrow> B ! x ! y = Num 0)"
    have "\<exists>s2. foldE (\<lambda>y. stepCell k y) [0..<?H] s1 = Inr s2 \<and> ?Q ?H s2"
    proof (rule foldE_upt_inv [where P = ?Q])
      fix j s2
      assume j: "j < ?H" and "?Q j s2"
      then obtain B where B: "s2 = s\<lparr>heap := (heap s)(tempGrid s := B)\<rparr>" "rect ?W ?H B"
        "heap s2 (grid s2) = deadGrid ?W ?H"
        "\<forall>x<?W. \<forall>y<?H. x < k \<or> (x = k \<and> y < j) \<longrightarrow> B ! x ! y = Num 0"
        by blast
      let ?B = "B[k := (B ! k)[j := Num 0]]"
      let ?s = "s\<lparr>heap := (heap s)(tempGrid s := ?B)\<rparr>"
      note sc = stepCell_dead [OF B(1) B(3) B(2) k j]
      have "?I ?B ?s"
        using sc(2) rect_store(2) [OF B(2) k j] by simp
      moreover have "\<forall>x<?W. \<forall>y<?H. x < k \<or> (x = k \<and> y < Suc j) \<longrightarrow> ?B ! x ! y = Num 0"
        using B(4) by (auto simp: nth_store [OF B(2) k j] less_Suc_eq)
      ultimately show "\<exists>s3. stepCell k j s2 = Inr s3 \<and> ?Q (Suc j) s3"
        using sc(1) by blast
    next
      show "?Q 0 s1" using A by auto
    qed simp
    then obtain s2 B where "foldE (\<lambda>y. stepCell k y) [0..<?H] s1 = Inr s2" "?I B s2"
      "\<forall>x<?W. \<forall>y<?H. x < k \<or> (x = k \<and> y < ?H) \<longrightarrow> B ! x ! y = Num 0"
      by blast
    moreover from this(3) have "\<forall>x<?W. \<forall>y<?H. x < Suc k \<longrightarrow> B ! x ! y = Num 0"
      by (auto simp: less_Suc_eq)
    ultimately show "\<exists>s2. foldE (\<lambda>y. stepCell k y) [0..<?H] s1 = Inr s2 \<and> ?P (Suc k) s2"
      by blast
  next
    have "(heap s)(tempGrid s := heap s (tempGrid s)) = heap s"
      by simp
    then have "s = s\<lparr>heap := (heap s)(tempGrid s := heap s (tempGrid s))\<rparr>"
      by simp
    with dead r have "?I (heap s (tempGrid s)) s" by simp
    then show "?P 0 s" by blast
  qed simp
  then obtain s' A where "foldE (\<lambda>x. foldE (\<lambda>y. stepCell x y) [0..<?H]) [0..<?W] s = Inr s'"
    "s' = s\<lparr>heap := (heap s)(tempGrid s := A)\<rparr>" "rect ?W ?H A"
    "\<forall>x<?W. \<forall>y<?H. x < ?W \<longrightarrow> A ! x ! y = Num 0"
    by blast
  moreover from this(3,4) have "A = deadGrid ?W ?H"
    by (intro deadGrid_nth) auto
  ultimately show ?thesis
    by (simp add: stepCells_def forLoopE_body cols_def rows_def)
qed

lemma step_dead:
  assumes "heap s (grid s) = deadGrid (cols e) (rows e)"
    and "rect (cols e) (rows e) (heap s (tempGrid s))"
  shows "step e s = Inr (s\<lparr>heap := (heap s)(tempGrid s := deadGrid (cols e) (rows e)),
      grid := tempGrid s\<rparr>)"
  by (simp add: step_def stepCells_dead [OF assms] bindE_def)

section \<open>What an update leaves and changes\<close>

lemma stepCell_frame:
  assumes "stepCell x y s = Inr s'"
  shows "frame s' = frame s"
  using assms
  by (auto simp: stepCell_def writeCell_def bindE_def frame_def split: sum.splits)

lemma stepCells_frame:
  assumes "stepCells e s = Inr s'"
  shows "frame s' = frame s"
proof -
  have inner: "frame b = frame a"
    if "foldE (\<lambda>y. stepCell x y) ys a = Inr b" for x ys a b
    using stepCell_frame that by (rule foldE_preserve)
  from assms have "foldE (\<lambda>x. foldE (\<lambda>y. stepCell x y) [0..<rows e]) [0..<cols e] s = Inr s'"
    by (simp add: stepCells_def forLoopE_body cols_def rows_def)
  with inner show ?thesis by (rule foldE_preserve)
qed

lemma cycle_frame:
  assumes "cycle e s = Inr (s2, cnt)"
  shows "grid s2 = tempGrid s2" and "tempGrid s2 = tempGrid s"
    and "clearCalls s2 = clearCalls s + 1" and "frameRequests s2 = frameRequests s"
proof -
  from assms obtain s1 where s1: "stepCells e (s\<lparr>clearCalls := clearCalls s + 1\<rparr>) = Inr s1"
    and s2: "s2 = s1\<lparr>grid := tempGrid s1\<rparr>"
    by (auto simp: cycle_def step_def bindE_def split: sum.splits)
  from stepCells_frame [OF s1] s2
  show "grid s2 = tempGrid s2" and "tempGrid s2 = tempGrid s"
    and "clearCalls s2 = clearCalls s + 1" and "frameRequests s2 = frameRequests s"
    by (simp_all add: frame_def)
qed

lemma seedGrid_frame:
  assumes "seedGrid e s = Inr s3"
  shows "grid s3 \<noteq> tempGrid s3" and "clearCalls s3 = clearCalls s"
    and "frameRequests s3 = frameRequests s"
  using assms by (auto simp: seedGrid_eq)

lemma update_result:
  assumes "update e s = Some y"
  shows "case y of Inl err \<Rightarrow> True
         | Inr s' \<Rightarrow> grid s' = tempGrid s' \<and> clearCalls s < clearCalls s' \<and>
             frameRequests s' = frameRequests s"
proof (rule update.raw_induct [where P = "\<lambda>e s y. case y of Inl err \<Rightarrow> True
         | Inr s' \<Rightarrow> grid s' = tempGrid s' \<and> clearCalls s < clearCalls s' \<and>
             frameRequests s' = frameRequests s", OF _ assms])
  fix upd :: "env \<Rightarrow> state \<Rightarrow> (error + state) option" and e s y
  assume IH: "\<And>e s y. upd e s = Some y \<Longrightarrow> (case y of Inl err \<Rightarrow> True
         | Inr s' \<Rightarrow> grid s' = tempGrid s' \<and> clearCalls s < clearCalls s' \<and>
             frameRequests s' = frameRequests s)"
    and body: "(case cycle e s of
        Inl err \<Rightarrow> Some (Inl err)
      | Inr (s2, cnt) \<Rightarrow>
          if collapsed e cnt
          then (case seedGrid e s2 of
                  Inl err \<Rightarrow> Some (Inl err)
                | Inr s3 \<Rightarrow> upd e s3)
          else Some (Inr s2)) = Some y"
  show "case y of Inl err \<Rightarrow> True
         | Inr s' \<Rightarrow> grid s' = tempGrid s' \<and> clearCalls s < clearCalls s' \<and>
             frameRequests s' = frameRequests s"
  proof (cases "cycle e s")
    case (Inl err)
    with body show ?thesis by auto
  next
    case (Inr p)
    obtain s2 cnt where p: "p = (s2, cnt)" by (cases p)
    note c = cycle_frame [OF Inr [unfolded p]]
    show ?thesis
    proof (cases "collapsed e cnt")
      case True
      show ?thesis
      proof (cases "seedGrid e s2")
        case (Inl err)
        with body Inr p True show ?thesis by auto
      next
        case s3: (Inr s3)
        with body Inr p True have "upd e s3 = Some y" by simp
        from IH [OF this] seedGrid_frame(2,3) [OF s3] c(3,4)
        show ?thesis by (auto split: sum.splits)
      qed
    next
      case False
      with body Inr p have "y = Inr s2" by simp
      with c show ?thesis by simp
    qed
  qed
qed

lemma update_Some:
  assumes "update e s = Some (Inr s')"
  shows "grid s' = tempGrid s'" and "clearCalls s < clearCalls s'"
    and "frameRequests s' = frameRequests s"
  using update_result [OF assms] by simp_all

lemma update_collapsed:
  assumes "cycle e s = Inr (s2, cnt)" and "collapsed e cnt"
  shows "update e s = populateGrid e s2"
  using assms by (subst update.simps) (simp add: populateGrid_def)

lemma update_survives:
  assumes "cycle e s = Inr (s2, cnt)" and "\<not> collapsed e cnt"
  shows "update e s = Some (Inr s2)"
  using assms by (subst update.simps) simp

lemma update_twice:
  assumes "cycle e s = Inr (s2, cnt)" and "collapsed e cnt" and "update e s = Some (Inr s')"
  shows "clearCalls s + 2 \<le> clearCalls s'"
proof -
  from assms have "populateGrid e s2 = Some (Inr s')"
    by (simp add: update_collapsed)
  then obtain s3 where s3: "seedGrid e s2 = Inr s3" and u: "update e s3 = Some (Inr s')"
    by (auto simp: populateGrid_def split: sum.splits)
  from update_Some(2) [OF u] seedGrid_frame(2) [OF s3] cycle_frame(3) [OF assms(1)]
  show ?thesis by simp
qed

section \<open>The monitor\<close>

lemma foldE_cong:
  assumes "\<And>k a. k \<in> set xs \<Longrightarrow> f k a = g k a"
  shows "foldE f xs a = foldE g xs a"
  using assms by (induction xs arbitrary: a) (auto split: sum.splits)

lemma foldE_add: "foldE (\<lambda>k c. Inr (c + h k)) xs c0 = Inr (c0 + sum_list (map h xs))"
  by (induction xs arbitrary: c0) (simp_all add: add.assoc)

lemma index2_rect:
  assumes "rect W H a" and "x < W" and "y < H"
  shows "index2 a (int x) (int y) = Inr (a ! x ! y)"
  using assms by (simp add: index2_def rect_nth)

lemma drawCells_liveCount:
  assumes r: "rect (cols e) (rows e) (heap s (grid s))"
  shows "drawCells e s = Inr (liveCount (heap s (grid s)))"
proof -
  let ?A = "heap s (grid s)" and ?W = "cols e" and ?H = "rows e"
  let ?body = "\<lambda>x y cnt. bindE (index2 ?A (int x) (int y)) (\<lambda>v.
           Inr (if truthy v then cnt + 1 else cnt))"
  have col: "foldE (?body x) [0..<?H] c = Inr (c + (\<Sum>v \<leftarrow> ?A ! x. present v))"
    if x: "x < ?W" for x c
  proof -
    have "foldE (?body x) [0..<?H] c = foldE (\<lambda>y c. Inr (c + present (?A ! x ! y))) [0..<?H] c"
      by (rule foldE_cong) (simp add: index2_rect [OF r x] bindE_def present_def)
    also have "\<dots> = Inr (c + sum_list (map (\<lambda>y. present (?A ! x ! y)) [0..<?H]))"
      by (rule foldE_add)
    also have "map (\<lambda>y. present (?A ! x ! y)) [0..<?H] = map present (map (\<lambda>y. ?A ! x ! y) [0..<length (?A ! x)])"
      using r x by (simp add: rect_nth)
    also have "\<dots> = map present (?A ! x)"
      by (simp only: map_nth)
    finally show ?thesis .
  qed
  have "foldE (\<lambda>x. foldE (?body x) [0..<?H]) [0..<?W] 0
      = foldE (\<lambda>x c. Inr (c + (\<Sum>v \<leftarrow> ?A ! x. present v))) [0..<?W] 0"
    by (rule foldE_cong) (simp add: col)
  also have "\<dots> = Inr (0 + sum_list (map (\<lambda>x. \<Sum>v \<leftarrow> ?A ! x. present v) [0..<?W]))"
    by (rule foldE_add)
  also have "map (\<lambda>x. \<Sum>v \<leftarrow> ?A ! x. present v) [0..<?W]
      = map (\<lambda>c. \<Sum>v \<leftarrow> c. present v) (map (\<lambda>x. ?A ! x) [0..<length ?A])"
    using r by (simp add: rect_nth)
  also have "\<dots> = map (\<lambda>c. \<Sum>v \<leftarrow> c. present v) ?A"
    by (simp only: map_nth)
  finally show ?thesis
    by (simp add: drawCells_def forLoopE_body cols_def rows_def liveCount_def)
qed

lemma collapsed_iff: "collapsed e cnt = (160 * cnt < width e * height e)"
proof (cases "width e * height e = 0")
  case True
  then show ?thesis
    by (auto simp: collapsed_def size_cell_def)
next
  case False
  then have pos: "(0::rat) < of_nat (width e) * of_nat (height e)"
    by simp
  have "collapsed e cnt = ((of_nat cnt :: rat) / (of_nat (width e) * of_nat (height e) / 16) < 1 / 10)"
    using False by (simp add: collapsed_def size_cell_def)
  also have "\<dots> = ((of_nat cnt :: rat) * 160 < of_nat (width e) * of_nat (height e))"
    using pos by (simp add: field_simps)
  also have "\<dots> = ((of_nat (cnt * 160) :: rat) < of_nat (width e * height e))"
    by simp
  also have "\<dots> = (cnt * 160 < width e * height e)"
    by (simp only: of_nat_less_iff)
  finally show ?thesis by (simp add: mult.commute)
qed

section \<open>The subtraction of doubles\<close>

lemma roundEven_cases:
  obtains (down) "x - of_int \<lfloor>x\<rfloor> < 1 / 2" "roundEven x = \<lfloor>x\<rfloor>"
  | (up) "1 / 2 < x - of_int \<lfloor>x\<rfloor>" "roundEven x = \<lfloor>x\<rfloor> + 1"
  | (tie_even) "x - of_int \<lfloor>x\<rfloor> = 1 / 2" "even \<lfloor>x\<rfloor>" "roundEven x = \<lfloor>x\<rfloor>"
  | (tie_odd) "x - of_int \<lfloor>x\<rfloor> = 1 / 2" "odd \<lfloor>x\<rfloor>" "roundEven x = \<lfloor>x\<rfloor> + 1"
proof -
  consider "x - of_int \<lfloor>x\<rfloor> < 1 / 2" | "1 / 2 < x - of_int \<lfloor>x\<rfloor>"
    | "x - of_int \<lfloor>x\<rfloor> = 1 / 2" "even \<lfloor>x\<rfloor>" | "x - of_int \<lfloor>x\<rfloor> = 1 / 2" "odd \<lfloor>x\<rfloor>"
    by fastforce
  then show ?thesis
  proof cases
    case 1
    then have "roundEven x = \<lfloor>x\<rfloor>" by (simp add: roundEven_def Let_def)
    with 1 show ?thesis by (rule down)
  next
    case 2
    then have "roundEven x = \<lfloor>x\<rfloor> + 1" by (simp add: roundEven_def Let_def)
    with 2 show ?thesis by (rule up)
  next
    case 3
    then have "roundEven x = \<lfloor>x\<rfloor>" by (simp add: roundEven_def Let_def)
    with 3 show ?thesis by (rule tie_even)
  next
    case 4
    then have "roundEven x = \<lfloor>x\<rfloor> + 1" by (simp add: roundEven_def Let_def)
    with 4 show ?thesis by (rule tie_odd)
  qed
qed

lemma roundEven_bounds:
  "of_int (roundEven x) \<le> x + 1 / 2" "x - 1 / 2 \<le> of_int (roundEven x)"
proof -
  have fl: "of_int \<lfloor>x\<rfloor> \<le> x" "x < of_int \<lfloor>x\<rfloor> + 1"
    by linarith+
  show "of_int (roundEven x) \<le> x + 1 / 2"
  proof (cases x rule: roundEven_cases)
    case down
    from fl show ?thesis unfolding down(2) by linarith
  next
    case up
    from fl up(1) show ?thesis unfolding up(2) of_int_add of_int_1 by linarith
  next
    case tie_even
    from fl show ?thesis unfolding tie_even(3) by linarith
  next
    case tie_odd
    from fl tie_odd(1) show ?thesis unfolding tie_odd(3) of_int_add of_int_1 by linarith
  qed
  show "x - 1 / 2 \<le> of_int (roundEven x)"
  proof (cases x rule: roundEven_cases)
    case down
    from fl down(1) show ?thesis unfolding down(2) by linarith
  next
    case up
    from fl show ?thesis unfolding up(2) of_int_add of_int_1 by linarith
  next
    case tie_even
    from fl tie_even(1) show ?thesis unfolding tie_even(3) by linarith
  next
    case tie_odd
    from fl show ?thesis unfolding tie_odd(3) of_int_add of_int_1 by linarith
  qed
qed

lemma roundEven_gt:
  assumes "even M"
  shows "(M < roundEven x) = (of_int M + 1 / 2 < x)"
proof -
  define f where "f = \<lfloor>x\<rfloor>"
  have fl: "of_int f \<le> x" "x < of_int f + 1"
    unfolding f_def by linarith+
  have lt: "(of_int M :: rat) + 1 \<le> of_int f" if "M < f"
  proof -
    from that have "M + 1 \<le> f" by simp
    then have "(of_int (M + 1) :: rat) \<le> of_int f" by (simp only: of_int_le_iff)
    then show ?thesis by simp
  qed
  have ge: "(of_int f :: rat) \<le> of_int M" if "\<not> M < f"
    using that by simp
  show ?thesis
  proof (cases x rule: roundEven_cases)
    case down
    show ?thesis
    proof (cases "M < f")
      case True
      with lt fl down show ?thesis unfolding f_def [symmetric] by simp
    next
      case False
      with ge fl down show ?thesis unfolding f_def [symmetric] by simp
    qed
  next
    case up
    show ?thesis
    proof (cases "M < f")
      case True
      with lt fl up show ?thesis unfolding f_def [symmetric] by simp
    next
      case False
      note nlt = this
      show ?thesis
      proof (cases "M = f")
        case True
        with fl up show ?thesis unfolding f_def [symmetric] by simp
      next
        case False
        with nlt have "f < M" by simp
        then have "f + 1 \<le> M" by simp
        then have "(of_int (f + 1) :: rat) \<le> of_int M" by (simp only: of_int_le_iff)
        then have "(of_int f :: rat) + 1 \<le> of_int M" by simp
        with fl up \<open>f < M\<close> show ?thesis unfolding f_def [symmetric] by simp
      qed
    qed
  next
    case tie_even
    show ?thesis
    proof (cases "M < f")
      case True
      with lt fl tie_even show ?thesis unfolding f_def [symmetric] by simp
    next
      case False
      with ge fl tie_even show ?thesis unfolding f_def [symmetric] by simp
    qed
  next
    case tie_odd
    with assms have ne: "M \<noteq> f" unfolding f_def by blast
    show ?thesis
    proof (cases "M < f")
      case True
      with lt fl tie_odd show ?thesis unfolding f_def [symmetric] by simp
    next
      case False
      with ne have "f < M" by simp
      with ge [OF False] fl tie_odd show ?thesis unfolding f_def [symmetric] by simp
    qed
  qed
qed

lemma expo_bounds:
  assumes "1 \<le> q"
  shows "power_int 2 (expo q) \<le> q" and "q < power_int 2 (expo q + 1)"
proof -
  define n where "n = nat \<lfloor>q\<rfloor>"
  define k where "k = floorlog 2 n"
  from assms have "1 \<le> \<lfloor>q\<rfloor>" by simp
  then have n: "0 < n" and nq: "(of_nat n :: rat) = of_int \<lfloor>q\<rfloor>"
    unfolding n_def by simp_all
  have fl: "of_int \<lfloor>q\<rfloor> \<le> q" "q < of_int \<lfloor>q\<rfloor> + 1"
    by linarith+
  from floorlog_bounds [OF n, of 2] have b: "2 ^ (k - 1) \<le> n" "n < 2 ^ k"
    unfolding k_def by simp_all
  from n have k: "0 < k"
    unfolding k_def by (simp add: floorlog_def)
  have e: "expo q = int (k - 1)" "expo q + 1 = int k"
    using assms k by (simp_all add: expo_def n_def k_def)
  from b(1) have "(of_nat (2 ^ (k - 1)) :: rat) \<le> of_nat n"
    by (simp only: of_nat_le_iff)
  then have "(2 :: rat) ^ (k - 1) \<le> of_nat n"
    by simp
  with fl(1) nq have "(2 :: rat) ^ (k - 1) \<le> q"
    by linarith
  then show "power_int 2 (expo q) \<le> q"
    unfolding e by simp
  from b(2) have "n + 1 \<le> 2 ^ k" by simp
  then have "(of_nat (n + 1) :: rat) \<le> of_nat (2 ^ k)"
    by (simp only: of_nat_le_iff)
  then have "(of_nat n :: rat) + 1 \<le> 2 ^ k"
    by simp
  with fl(2) nq have "q < 2 ^ k"
    by linarith
  then show "q < power_int 2 (expo q + 1)"
    unfolding e(2) by simp
qed

lemma expo_nonneg:
  assumes "1 \<le> q"
  shows "0 \<le> expo q"
proof -
  from assms have "1 \<le> \<lfloor>q\<rfloor>" by simp
  then have "0 < nat \<lfloor>q\<rfloor>" by simp
  then have "0 < floorlog 2 (nat \<lfloor>q\<rfloor>)"
    by (simp add: floorlog_def)
  with assms show ?thesis
    by (simp add: expo_def)
qed

lemma expo_small:
  assumes "0 < q" and "q < 256"
  shows "expo q \<le> 7"
proof (cases "1 \<le> q")
  case True
  from expo_bounds(1) [OF True] assms(2) have "power_int (2 :: rat) (expo q) < power_int 2 8"
    by simp
  then have "expo q < 8"
    by (rule power_int_le_imp_less_exp [rotated]) simp_all
  then show ?thesis by simp
next
  case False
  then show ?thesis by (simp add: expo_def)
qed

lemma expo_mid:
  assumes "256 \<le> q" and "q < 512"
  shows "expo q = 8"
proof -
  from assms have q: "1 \<le> q" by simp
  from expo_bounds(1) [OF q] assms(2) have "power_int (2 :: rat) (expo q) < power_int 2 9"
    by simp
  then have "expo q < 9"
    by (rule power_int_le_imp_less_exp [rotated]) simp_all
  moreover from expo_bounds(2) [OF q] assms(1) have "power_int (2 :: rat) 8 < power_int 2 (expo q + 1)"
    by simp
  then have "8 < expo q + 1"
  proof (rule power_int_le_imp_less_exp [rotated])
    show "0 \<le> expo q + 1" using q by (simp add: expo_def)
  qed simp
  ultimately show ?thesis by simp
qed

lemma round64_gt_500: "(500 < round64 d) = (500 + 1 / 2 ^ 45 < d)"
proof -
  consider (neg) "d \<le> 0" | (small) "0 < d" "d < 256" | (mid) "256 \<le> d" "d < 512" | (big) "512 \<le> d"
    by linarith
  then show ?thesis
  proof cases
    case neg
    show ?thesis
    proof (cases "d = 0")
      case True
      then show ?thesis by (simp add: round64_def)
    next
      case False
      define u where "u = power_int (2 :: rat) (max (expo \<bar>d\<bar>) (- 1022) - 52)"
      have u: "0 < u" unfolding u_def by simp
      with neg have "d / u \<le> 0" by (simp add: divide_nonpos_pos)
      with roundEven_bounds(1) [of "d / u"] have "of_int (roundEven (d / u)) \<le> (1 / 2 :: rat)"
        by linarith
      have "roundEven (d / u) \<le> 0"
      proof (rule ccontr)
        assume "\<not> roundEven (d / u) \<le> 0"
        then have "1 \<le> roundEven (d / u)" by simp
        then have "(1 :: rat) \<le> of_int (roundEven (d / u))" by simp
        with \<open>of_int (roundEven (d / u)) \<le> (1 / 2 :: rat)\<close> show False by simp
      qed
      then have "of_int (roundEven (d / u)) * u \<le> 0"
        using u by (simp add: mult_le_0_iff)
      with False neg show ?thesis
        by (simp add: round64_def u_def Let_def)
    qed
  next
    case small
    define u where "u = power_int (2 :: rat) (max (expo \<bar>d\<bar>) (- 1022) - 52)"
    have u0: "0 < u" unfolding u_def by simp
    from small have "expo \<bar>d\<bar> \<le> 7" by (simp add: expo_small)
    then have "max (expo \<bar>d\<bar>) (- 1022) - 52 \<le> 0" by simp
    then have "power_int (2 :: rat) (max (expo \<bar>d\<bar>) (- 1022) - 52) \<le> power_int 2 0"
      by (intro power_int_increasing) simp_all
    then have u1: "u \<le> 1" unfolding u_def by simp
    from roundEven_bounds(1) [of "d / u"] u0
    have "of_int (roundEven (d / u)) * u \<le> (d / u + 1 / 2) * u"
      by (simp only: mult_le_cancel_right_pos)
    also have "\<dots> = d + u / 2" using u0 by (simp add: field_simps)
    finally have "round64 d \<le> d + u / 2"
      using small by (simp add: round64_def u_def Let_def)
    with small u1 show ?thesis by simp
  next
    case mid
    then have e: "expo d = 8" by (simp add: expo_mid)
    have u: "power_int (2 :: rat) (- 44) = 1 / 2 ^ 44"
      by (simp add: power_int_def inverse_eq_divide power_one_over)
    from mid have "\<bar>d\<bar> = d" and "d \<noteq> 0" by simp_all
    then have r: "round64 d = of_int (roundEven (d * 2 ^ 44)) / 2 ^ 44"
      by (simp add: round64_def e u Let_def)
    have "(500 < round64 d) = ((of_int (500 * 2 ^ 44) :: rat) < of_int (roundEven (d * 2 ^ 44)))"
      unfolding r by (simp add: field_simps)
    also have "\<dots> = (500 * 2 ^ 44 < roundEven (d * 2 ^ 44))"
      by (simp only: of_int_less_iff)
    also have "\<dots> = (of_int (500 * 2 ^ 44) + 1 / 2 < d * 2 ^ 44)"
      by (rule roundEven_gt) simp
    also have "\<dots> = (500 + 1 / 2 ^ 45 < d)"
      by (simp add: field_simps)
    finally show ?thesis .
  next
    case big
    then have q: "1 \<le> \<bar>d\<bar>" and a: "\<bar>d\<bar> = d" by simp_all
    define e where "e = expo \<bar>d\<bar>"
    define u where "u = power_int (2 :: rat) (max e (- 1022) - 52)"
    have u0: "0 < u" unfolding u_def by simp
    from q have e0: "0 \<le> e" unfolding e_def by (rule expo_nonneg)
    then have "u = power_int 2 e / power_int 2 52"
      unfolding u_def by (simp add: max_def power_int_diff)
    with expo_bounds(1) [OF q] a have u1: "u \<le> d / 2 ^ 52"
      unfolding e_def by (simp add: divide_right_mono)
    from roundEven_bounds(2) [of "d / u"] u0
    have "(d / u - 1 / 2) * u \<le> of_int (roundEven (d / u)) * u"
      by (simp only: mult_le_cancel_right_pos)
    moreover have "(d / u - 1 / 2) * u = d - u / 2" using u0 by (simp add: field_simps)
    ultimately have "d - u / 2 \<le> of_int (roundEven (d / u)) * u"
      by (simp only:)
    moreover have "round64 d = of_int (roundEven (d / u)) * u"
      using big by (simp add: round64_def u_def e_def Let_def)
    ultimately have "d - u / 2 \<le> round64 d"
      by (simp only:)
    with u1 big show ?thesis by simp
  qed
qed

section \<open>The frame callback: the three cases\<close>

lemma due_iff: "(stepInMs < minus64 t tp) = (500 + 1 / 2 ^ 45 < t - tp)"
  by (simp only: stepInMs_def minus64_def round64_gt_500)

lemma start_first:
  assumes "startTime s = None"
  shows "start e t s = Some (Inr (s\<lparr>startTime := Some t, frameRequests := frameRequests s + 1\<rparr>))"
  using assms
  by (simp add: start_def stepInMs_def minus64_def round64_def requestAnimationFrame_def)

lemma start_wait:
  assumes "startTime s = Some tp" and "\<not> stepInMs < minus64 t tp"
  shows "start e t s = Some (Inr (s\<lparr>frameRequests := frameRequests s + 1\<rparr>))"
  using assms by (simp add: start_def requestAnimationFrame_def)

lemma start_due:
  assumes "startTime s = Some tp" and "stepInMs < minus64 t tp"
  shows "start e t s =
     (case update e (s\<lparr>drawCount := drawCount s + 1, startTime := Some t\<rparr>) of
        None \<Rightarrow> None
      | Some (Inl err) \<Rightarrow> Some (Inl err)
      | Some (Inr s2) \<Rightarrow> Some (Inr (s2\<lparr>frameRequests := frameRequests s2 + 1\<rparr>)))"
  using assms
  by (simp add: start_def requestAnimationFrame_def split: option.splits sum.splits)

section \<open>The dimensions of the grid\<close>

lemma floor_quarter: "nat \<lfloor>(of_nat w :: rat) / size_cell\<rfloor> = w div 4"
proof -
  have "\<lfloor>(of_nat w :: rat) / size_cell\<rfloor> = \<lfloor>(of_int (int w) :: rat) / of_int 4\<rfloor>"
    by (simp add: size_cell_def)
  also have "\<dots> = int w div 4"
    by (simp only: floor_divide_of_int_eq)
  finally show ?thesis
    by (simp add: nat_div_distrib)
qed

lemma cols_div: "cols e = (width e + 3) div 4"
  by (simp add: cols_def ceiling_quarter)

lemma rows_div: "rows e = (height e + 3) div 4"
  by (simp add: rows_def ceiling_quarter)

lemma seedGrid_fresh: "seedGrid e s = Inr (freshGrids e s)"
  by (simp add: seedGrid_eq freshGrids_def)

lemma rect_seeded: "rect (cols e) (rows e) (seeded e n)"
  by (simp add: rect_nth seeded_def)

text \<open>
  C7, as the specification states it, fails: on a canvas of 6 by 6 pixels the quotient is 1.5 and
  its floor is 1, but the seeding writes 2 by 2 cells and the count finds all four alive.
\<close>

theorem floor_bound_counterexample:
  "gridOf (Some (seedGrid sixSquare initial)) = Some (Inr [[Num 1, Num 1], [Num 1, Num 1]]) \<and>
   bindE (seedGrid sixSquare initial) (drawCells sixSquare) = Inr 4 \<and>
   nat \<lfloor>of_nat (width sixSquare) / size_cell\<rfloor> = 1 \<and>
   nat \<lfloor>of_nat (height sixSquare) / size_cell\<rfloor> = 1"
  by code_simp

text \<open>
  C7, amended: the loops run while \<open>x < width / size\<close> with the quotient not rounded, so
  the grid has \<open>W = ceiling (width / size)\<close> columns and \<open>H = ceiling (height / size)\<close>
  rows, which are the floors exactly when the cell size divides the side. With these
  bounds \<open>initArray\<close> makes \<open>W\<close> by \<open>H\<close> dead cells, the seeding makes two such grids,
  and the step and the count visit exactly the \<open>x\<close> below \<open>W\<close> and, for each, the \<open>y\<close>
  below \<open>H\<close>, for every size of the surface.
\<close>

theorem loop_bounds_ceiling:
  "cols e = (width e + 3) div 4 \<and> rows e = (height e + 3) div 4 \<and>
   (cols e = nat \<lfloor>of_nat (width e) / size_cell\<rfloor>) = (4 dvd width e) \<and>
   (rows e = nat \<lfloor>of_nat (height e) / size_cell\<rfloor>) = (4 dvd height e) \<and>
   initArray (of_nat (width e) / size_cell) (of_nat (height e) / size_cell) =
     Inr (deadGrid (cols e) (rows e)) \<and>
   seedGrid e s = Inr (freshGrids e s) \<and>
   rect (cols e) (rows e) (seeded e n) \<and>
   rect (cols e) (rows e) (deadGrid (cols e) (rows e)) \<and>
   stepCells e s = foldE (\<lambda>x. foldE (\<lambda>y. stepCell x y) [0..<rows e]) [0..<cols e] s \<and>
   drawCells e s =
     foldE (\<lambda>x. foldE (\<lambda>y cnt.
         bindE (index2 (heap s (grid s)) (int x) (int y)) (\<lambda>v.
           Inr (if truthy v then cnt + 1 else cnt))) [0..<rows e]) [0..<cols e] 0"
proof -
  have "(cols e = nat \<lfloor>of_nat (width e) / size_cell\<rfloor>) = (4 dvd width e)"
    unfolding cols_div floor_quarter by presburger
  moreover have "(rows e = nat \<lfloor>of_nat (height e) / size_cell\<rfloor>) = (4 dvd height e)"
    unfolding rows_div floor_quarter by presburger
  moreover have "initArray (of_nat (width e) / size_cell) (of_nat (height e) / size_cell) =
     Inr (deadGrid (cols e) (rows e))"
    by (simp add: initArray_dead cols_def rows_def)
  moreover have "stepCells e s =
      foldE (\<lambda>x. foldE (\<lambda>y. stepCell x y) [0..<rows e]) [0..<cols e] s"
    by (simp add: stepCells_def forLoopE_body cols_def rows_def)
  moreover have "drawCells e s =
     foldE (\<lambda>x. foldE (\<lambda>y cnt.
         bindE (index2 (heap s (grid s)) (int x) (int y)) (\<lambda>v.
           Inr (if truthy v then cnt + 1 else cnt))) [0..<rows e]) [0..<cols e] 0"
    by (simp add: drawCells_def forLoopE_body cols_def rows_def)
  ultimately show ?thesis
    using cols_div [of e] rows_div [of e] seedGrid_fresh [of e s] rect_seeded [of e n]
      rect_deadGrid [of "cols e" "rows e"]
    by simp
qed

theorem loop_bounds_ceiling_witness:
  "cols sixSquare = 2 \<and> rows sixSquare = 2 \<and> \<not> 4 dvd width sixSquare \<and>
   cols sixSquare \<noteq> nat \<lfloor>of_nat (width sixSquare) / size_cell\<rfloor> \<and>
   initArray (of_nat (width sixSquare) / size_cell) (of_nat (height sixSquare) / size_cell) =
     Inr [[Num 0, Num 0], [Num 0, Num 0]] \<and>
   rect 2 2 (seeded sixSquare 0)"
proof -
  note t = loop_bounds_ceiling [of sixSquare initial 0]
  have w: "width sixSquare = 6" "height sixSquare = 6"
    by (simp_all add: sixSquare_def)
  from t have c: "cols sixSquare = 2" "rows sixSquare = 2"
    by (simp_all add: w)
  have n: "\<not> 4 dvd width sixSquare"
    by (simp add: w)
  with t have f: "cols sixSquare \<noteq> nat \<lfloor>of_nat (width sixSquare) / size_cell\<rfloor>"
    by blast
  have d: "deadGrid 2 2 = [[Num 0, Num 0], [Num 0, Num 0]]"
    by (simp add: deadGrid_def numeral_2_eq_2)
  from t have "initArray (of_nat (width sixSquare) / size_cell)
      (of_nat (height sixSquare) / size_cell) = Inr (deadGrid (cols sixSquare) (rows sixSquare))"
    by (elim conjE)
  then have i: "initArray (of_nat (width sixSquare) / size_cell)
      (of_nat (height sixSquare) / size_cell) = Inr [[Num 0, Num 0], [Num 0, Num 0]]"
    unfolding c d .
  from t have "rect (cols sixSquare) (rows sixSquare) (seeded sixSquare 0)"
    by (elim conjE)
  then have "rect 2 2 (seeded sixSquare 0)"
    unfolding c .
  with c n f i show ?thesis
    by blast
qed

section \<open>A dead grid\<close>

text \<open>
  C8: where every cell of the \<open>W\<close> by \<open>H\<close> grid is 0, and \<open>tempGrid\<close> names an array of
  the same dimensions (the same array or another), any number of steps run without
  error and leave a grid in which every cell is 0.
\<close>

theorem dead_stays_dead:
  assumes "heap s (grid s) = deadGrid (cols e) (rows e)"
    and "rect (cols e) (rows e) (heap s (tempGrid s))"
  shows "\<exists>s'. steps e n s = Inr s' \<and> heap s' (grid s') = deadGrid (cols e) (rows e)"
  using assms
proof (induction n arbitrary: s)
  case 0
  then show ?case by simp
next
  case (Suc n)
  let ?s = "s\<lparr>heap := (heap s)(tempGrid s := deadGrid (cols e) (rows e)), grid := tempGrid s\<rparr>"
  have "heap ?s (grid ?s) = deadGrid (cols e) (rows e)"
    and "rect (cols e) (rows e) (heap ?s (tempGrid ?s))"
    by (simp_all add: rect_deadGrid)
  from Suc.IH [OF this] step_dead [OF Suc.prems]
  show ?case by (simp add: bindE_def)
qed

theorem dead_stays_dead_witness:
  "heap barren (grid barren) = deadGrid (cols rowSeed) (rows rowSeed) \<and>
   rect (cols rowSeed) (rows rowSeed) (heap barren (tempGrid barren)) \<and>
   (\<exists>s'. steps rowSeed 2 barren = Inr s' \<and>
      heap s' (grid s') = deadGrid (cols rowSeed) (rows rowSeed))"
proof -
  have c: "cols rowSeed = 3" "rows rowSeed = 3"
    by (simp_all add: cols_div rows_div rowSeed_def)
  have a: "heap barren (grid barren) = deadGrid (cols rowSeed) (rows rowSeed)"
    by (simp add: c barren_def initial_def)
  have b: "rect (cols rowSeed) (rows rowSeed) (heap barren (tempGrid barren))"
    by (simp add: c barren_def initial_def rect_deadGrid)
  from dead_stays_dead [OF a b, of 2] a b show ?thesis
    by blast
qed

section \<open>The two buffers\<close>

text \<open>
  C2 does not hold of the script. After \<open>grid = tempGrid\<close> both globals hold the address
  of one array, and nothing gives \<open>tempGrid\<close> another before the next seeding: whenever
  \<open>update\<close> returns, and so when the program has started, \<open>grid\<close> and \<open>tempGrid\<close> are the
  same array. The array that was current is dropped, not used again.
\<close>

theorem buffers_aliased:
  "(update e s = Some (Inr s') \<longrightarrow> grid s' = tempGrid s') \<and>
   (main e = Some (Inr s') \<longrightarrow> grid s' = tempGrid s')"
proof -
  have "grid s' = tempGrid s'" if "main e = Some (Inr s')"
  proof -
    from that obtain s3 s2 where "seedGrid e initial = Inr s3" and u: "update e s3 = Some (Inr s2)"
      and "s' = requestAnimationFrame s2"
      by (auto simp: main_def populateGrid_def split: option.splits sum.splits)
    with update_Some(1) [OF u] show ?thesis
      by (simp add: requestAnimationFrame_def)
  qed
  with update_Some(1) [of e s s'] show ?thesis
    by blast
qed

theorem buffers_aliased_witness:
  "(\<exists>s'. update rowSeed blinker = Some (Inr s') \<and> grid s' = tempGrid s') \<and>
   (\<exists>s'. main rowSeed = Some (Inr s') \<and> grid s' = tempGrid s')"
proof -
  have "returned (update rowSeed blinker)" and "returned (main rowSeed)"
    by code_simp+
  then obtain s1 s2 where "update rowSeed blinker = Some (Inr s1)" and "main rowSeed = Some (Inr s2)"
    by (auto simp: returned_def split: option.splits sum.splits)
  with buffers_aliased [of rowSeed blinker s1] buffers_aliased [of rowSeed blinker s2]
  show ?thesis by blast
qed

section \<open>The first step and the second\<close>

text \<open>
  While \<open>grid\<close> and \<open>tempGrid\<close> name two arrays of \<open>W\<close> by \<open>H\<close> cells, as they do
  after every seeding, the step is synchronous: the writes go to the other array, and every
  cell is computed from the grid as it was.
\<close>

lemma updateCell_same:
  assumes "heap s1 (grid s1) = heap s (grid s)"
  shows "updateCell s1 x y = updateCell s x y"
  unfolding updateCell_def countNeighbours_def cellValue_def assms
  by (rule refl)

lemma updateCell_returns:
  assumes "rect W H (heap s (grid s))" and "x < W" and "y < H"
  shows "\<exists>v. updateCell s (int x) (int y) = Inr v"
  by (simp add: updateCell_def Let_def bindE_def index2_rect [OF assms])

lemma stepCells_synchronous:
  assumes ne: "grid s \<noteq> tempGrid s"
    and g: "rect (cols e) (rows e) (heap s (grid s))"
    and r: "rect (cols e) (rows e) (heap s (tempGrid s))"
  shows "\<exists>A. stepCells e s = Inr (s\<lparr>heap := (heap s)(tempGrid s := A)\<rparr>) \<and>
      map (map Inr) A = syncStep e s"
proof -
  let ?W = "cols e" and ?H = "rows e"
  let ?I = "\<lambda>A s1. s1 = s\<lparr>heap := (heap s)(tempGrid s := A)\<rparr> \<and> rect ?W ?H A"
  let ?P = "\<lambda>k s1. \<exists>A. ?I A s1 \<and>
      (\<forall>x<?W. \<forall>y<?H. x < k \<longrightarrow> Inr (A ! x ! y) = updateCell s (int x) (int y))"
  have same: "updateCell (s\<lparr>heap := (heap s)(tempGrid s := B)\<rparr>) x y = updateCell s x y" for B x y
    using ne by (intro updateCell_same) simp
  have "\<exists>s'. foldE (\<lambda>x. foldE (\<lambda>y. stepCell x y) [0..<?H]) [0..<?W] s = Inr s' \<and> ?P ?W s'"
  proof (rule foldE_upt_inv [where P = ?P])
    fix k s1
    assume k: "k < ?W" and "?P k s1"
    then obtain A where A: "?I A s1"
      "\<forall>x<?W. \<forall>y<?H. x < k \<longrightarrow> Inr (A ! x ! y) = updateCell s (int x) (int y)"
      by blast
    let ?Q = "\<lambda>j s2. \<exists>B. ?I B s2 \<and>
      (\<forall>x<?W. \<forall>y<?H. x < k \<or> (x = k \<and> y < j) \<longrightarrow>
         Inr (B ! x ! y) = updateCell s (int x) (int y))"
    have "\<exists>s2. foldE (\<lambda>y. stepCell k y) [0..<?H] s1 = Inr s2 \<and> ?Q ?H s2"
    proof (rule foldE_upt_inv [where P = ?Q])
      fix j s2
      assume j: "j < ?H" and "?Q j s2"
      then obtain B where B: "s2 = s\<lparr>heap := (heap s)(tempGrid s := B)\<rparr>" "rect ?W ?H B"
        "\<forall>x<?W. \<forall>y<?H. x < k \<or> (x = k \<and> y < j) \<longrightarrow>
           Inr (B ! x ! y) = updateCell s (int x) (int y)"
        by blast
      from updateCell_returns [OF g k j] obtain v where v: "updateCell s (int k) (int j) = Inr v"
        by blast
      let ?B = "B[k := (B ! k)[j := v]]"
      let ?s = "s\<lparr>heap := (heap s)(tempGrid s := ?B)\<rparr>"
      from v B(1) have "updateCell s2 (int k) (int j) = Inr v"
        by (simp only: same)
      with rect_store(1) [OF B(2) k j, of v] B(1)
      have sc: "stepCell k j s2 = Inr ?s"
        by (simp add: stepCell_def bindE_def writeCell_def)
      have "?I ?B ?s"
        using rect_store(2) [OF B(2) k j] by simp
      moreover have "\<forall>x<?W. \<forall>y<?H. x < k \<or> (x = k \<and> y < Suc j) \<longrightarrow>
           Inr (?B ! x ! y) = updateCell s (int x) (int y)"
        using B(3) v by (auto simp: nth_store [OF B(2) k j] less_Suc_eq)
      ultimately show "\<exists>s3. stepCell k j s2 = Inr s3 \<and> ?Q (Suc j) s3"
        using sc by blast
    next
      show "?Q 0 s1" using A by auto
    qed simp
    then obtain s2 B where "foldE (\<lambda>y. stepCell k y) [0..<?H] s1 = Inr s2" "?I B s2"
      "\<forall>x<?W. \<forall>y<?H. x < k \<or> (x = k \<and> y < ?H) \<longrightarrow>
         Inr (B ! x ! y) = updateCell s (int x) (int y)"
      by blast
    moreover from this(3)
    have "\<forall>x<?W. \<forall>y<?H. x < Suc k \<longrightarrow> Inr (B ! x ! y) = updateCell s (int x) (int y)"
      by (auto simp: less_Suc_eq)
    ultimately show "\<exists>s2. foldE (\<lambda>y. stepCell k y) [0..<?H] s1 = Inr s2 \<and> ?P (Suc k) s2"
      by blast
  next
    have "(heap s)(tempGrid s := heap s (tempGrid s)) = heap s"
      by simp
    then have "s = s\<lparr>heap := (heap s)(tempGrid s := heap s (tempGrid s))\<rparr>"
      by simp
    with r have "?I (heap s (tempGrid s)) s" by simp
    then show "?P 0 s" by blast
  qed simp
  then obtain s' A where f: "foldE (\<lambda>x. foldE (\<lambda>y. stepCell x y) [0..<?H]) [0..<?W] s = Inr s'"
    and s': "s' = s\<lparr>heap := (heap s)(tempGrid s := A)\<rparr>" and rA: "rect ?W ?H A"
    and c: "\<forall>x<?W. \<forall>y<?H. x < ?W \<longrightarrow> Inr (A ! x ! y) = updateCell s (int x) (int y)"
    by blast
  have "map (map Inr) A = syncStep e s"
  proof (rule nth_equalityI)
    show "length (map (map Inr) A) = length (syncStep e s)"
      using rA by (simp add: rect_nth syncStep_def)
  next
    fix x assume "x < length (map (map Inr) A)"
    with rA have x: "x < ?W" by (simp add: rect_nth)
    show "map (map Inr) A ! x = syncStep e s ! x"
    proof (rule nth_equalityI)
      show "length (map (map Inr) A ! x) = length (syncStep e s ! x)"
        using rA x by (simp add: rect_nth syncStep_def)
    next
      fix y assume "y < length (map (map Inr) A ! x)"
      with rA x have y: "y < ?H" by (simp add: rect_nth)
      with c x rA show "map (map Inr) A ! x ! y = syncStep e s ! x ! y"
        by (simp add: syncStep_def rect_nth)
    qed
  qed
  moreover from f s' have "stepCells e s = Inr (s\<lparr>heap := (heap s)(tempGrid s := A)\<rparr>)"
    by (simp add: stepCells_def forLoopE_body cols_def rows_def)
  ultimately show ?thesis
    by blast
qed

lemma step_synchronous:
  assumes "grid s \<noteq> tempGrid s"
    and "rect (cols e) (rows e) (heap s (grid s))"
    and "rect (cols e) (rows e) (heap s (tempGrid s))"
  shows "\<exists>s'. step e s = Inr s' \<and> map (map Inr) (heap s' (grid s')) = syncStep e s"
proof -
  from stepCells_synchronous [OF assms] obtain A
    where "stepCells e s = Inr (s\<lparr>heap := (heap s)(tempGrid s := A)\<rparr>)"
      and "map (map Inr) A = syncStep e s"
    by blast
  then show ?thesis
    by (simp add: step_def bindE_def)
qed

lemma first_step_synchronous:
  "\<exists>s'. step e (freshGrids e s) = Inr s' \<and>
     map (map Inr) (heap s' (grid s')) = syncStep e (freshGrids e s)"
proof (rule step_synchronous)
  show "grid (freshGrids e s) \<noteq> tempGrid (freshGrids e s)"
    by (simp add: freshGrids_def)
  show "rect (cols e) (rows e) (heap (freshGrids e s) (grid (freshGrids e s)))"
    by (simp add: freshGrids_def rect_seeded)
  show "rect (cols e) (rows e) (heap (freshGrids e s) (tempGrid (freshGrids e s)))"
    by (simp add: freshGrids_def rect_deadGrid)
qed

text \<open>
  C1 does not hold of the script from the second step on. On a canvas of 12 by 12
  pixels seeded with the cells \<open>(0,1)\<close>, \<open>(1,1)\<close>, \<open>(2,1)\<close>, the program starts with the
  column \<open>x = 1\<close> alive, the result of one synchronous step. The synchronous image of that
  grid is the seeded line again. But the callback at 501 ms, which makes one step and no
  reseeding, leaves another grid: it writes into the array it reads, and cell \<open>(0,2)\<close>
  counts the cell \<open>(0,1)\<close> that the same step has just brought to life, so that it is born
  with three neighbours where the grid before the step gave it two.
\<close>

theorem second_step_in_place:
  "gridOf (run rowSeed [0]) =
     Some (Inr [[Num 0, Num 0, Num 0], [Num 1, Num 1, Num 1], [Num 0, Num 0, Num 0]]) \<and>
   syncOf rowSeed (run rowSeed [0]) =
     Some (Inr [[Inr (Num 0), Inr (Num 1), Inr (Num 0)],
                [Inr (Num 0), Inr (Num 1), Inr (Num 0)],
                [Inr (Num 0), Inr (Num 1), Inr (Num 0)]]) \<and>
   gridOf (run rowSeed [0, 501]) =
     Some (Inr [[Num 0, Num 1, Num 1], [Num 1, Num 0, Num 1], [Num 0, Num 0, Num 0]]) \<and>
   clearsOf (run rowSeed [0]) = Some (Inr 1) \<and>
   clearsOf (run rowSeed [0, 501]) = Some (Inr 2)"
  by code_simp

section \<open>The population monitor\<close>

text \<open>
  C5, as the specification states it, fails. On a canvas of 15 by 15 pixels the first cycle leaves
  one live cell, and the monitor reseeds (the program starts after two cycles), though 1 of
  3 times 3 cells, the floors, is not below a tenth. On a canvas of 13 by 12 pixels the first cycle leaves one live cell of
  the 12 that the grid has, less than a tenth, and the monitor does not reseed: the program
  starts with that grid.
\<close>

theorem monitor_counterexample:
  "countOf (firstCycle fifteenSquare) = Inr 1 \<and>
   collapsed fifteenSquare 1 \<and>
   \<not> (1 / (of_int \<lfloor>of_nat (width fifteenSquare) / size_cell\<rfloor> *
            of_int \<lfloor>of_nat (height fifteenSquare) / size_cell\<rfloor>) < (1 / 10 :: rat)) \<and>
   clearsOf (main fifteenSquare) = Some (Inr 2) \<and>
   countOf (firstCycle thirteenByTwelve) = Inr 1 \<and>
   cellsOf (firstCycle thirteenByTwelve) = Inr 12 \<and>
   (1 / 12 < (1 / 10 :: rat)) \<and>
   \<not> collapsed thirteenByTwelve 1 \<and>
   returned (main thirteenByTwelve) \<and>
   clearsOf (main thirteenByTwelve) = Some (Inr 1)"
  by code_simp

text \<open>
  C5, amended: after the step of a cycle, with \<open>cnt\<close> the number of live cells of the new
  grid, the reseeding is triggered if and only if the surface has an area and
  \<open>cnt / ((width / size) * (height / size)) < 0.10\<close>, the quotients not rounded, that is,
  if and only if \<open>160 * cnt < width * height\<close>. When it is not triggered, \<open>update\<close> returns
  the state the step left. When it is, \<open>update\<close> goes on as \<open>update\<close> on new grids, seeded
  apart from the collapsed one.
\<close>

theorem monitor_threshold:
  assumes "cycle e s = Inr (s2, cnt)" and "rect (cols e) (rows e) (heap s2 (grid s2))"
  shows "cnt = liveCount (heap s2 (grid s2)) \<and>
    collapsed e cnt =
      (width e * height e \<noteq> 0 \<and>
       of_nat cnt / ((of_nat (width e) / size_cell) * (of_nat (height e) / size_cell))
         < (1 / 10 :: rat)) \<and>
    collapsed e cnt = (160 * cnt < width e * height e) \<and>
    (\<not> collapsed e cnt \<longrightarrow> update e s = Some (Inr s2)) \<and>
    (collapsed e cnt \<longrightarrow> update e s = update e (freshGrids e s2))"
proof -
  from assms(1) have "drawCells e s2 = Inr cnt"
    by (auto simp: cycle_def bindE_def split: sum.splits)
  with drawCells_liveCount [OF assms(2)] have "cnt = liveCount (heap s2 (grid s2))"
    by simp
  moreover have "collapsed e cnt =
      (width e * height e \<noteq> 0 \<and>
       of_nat cnt / ((of_nat (width e) / size_cell) * (of_nat (height e) / size_cell))
         < (1 / 10 :: rat))"
    by (auto simp: collapsed_def size_cell_def)
  moreover have "update e s = update e (freshGrids e s2)" if "collapsed e cnt"
    using update_collapsed [OF assms(1) that]
    by (simp add: populateGrid_def seedGrid_fresh)
  ultimately show ?thesis
    using collapsed_iff [of e cnt] update_survives [OF assms(1)]
    by blast
qed

theorem monitor_threshold_witness:
  "(\<exists>s2 cnt. firstCycle fifteenSquare = Inr (s2, cnt) \<and>
      rect (cols fifteenSquare) (rows fifteenSquare) (heap s2 (grid s2)) \<and>
      cnt = liveCount (heap s2 (grid s2)) \<and> collapsed fifteenSquare cnt \<and>
      update fifteenSquare (freshGrids fifteenSquare initial) =
        update fifteenSquare (freshGrids fifteenSquare s2)) \<and>
   (\<exists>s2 cnt. firstCycle thirteenByTwelve = Inr (s2, cnt) \<and>
      rect (cols thirteenByTwelve) (rows thirteenByTwelve) (heap s2 (grid s2)) \<and>
      cnt = liveCount (heap s2 (grid s2)) \<and> \<not> collapsed thirteenByTwelve cnt \<and>
      update thirteenByTwelve (freshGrids thirteenByTwelve initial) = Some (Inr s2))"
proof -
  have "case firstCycle fifteenSquare of Inl err \<Rightarrow> False
        | Inr (s2, cnt) \<Rightarrow>
            rect (cols fifteenSquare) (rows fifteenSquare) (heap s2 (grid s2)) \<and>
            collapsed fifteenSquare cnt"
    by code_simp
  then obtain s2 cnt where a: "firstCycle fifteenSquare = Inr (s2, cnt)"
    "rect (cols fifteenSquare) (rows fifteenSquare) (heap s2 (grid s2))"
    "collapsed fifteenSquare cnt"
    by (auto split: sum.splits)
  from a(1) have a': "cycle fifteenSquare (freshGrids fifteenSquare initial) = Inr (s2, cnt)"
    by (simp add: firstCycle_def seedGrid_fresh bindE_def)
  have "case firstCycle thirteenByTwelve of Inl err \<Rightarrow> False
        | Inr (s2, cnt) \<Rightarrow>
            rect (cols thirteenByTwelve) (rows thirteenByTwelve) (heap s2 (grid s2)) \<and>
            \<not> collapsed thirteenByTwelve cnt"
    by code_simp
  then obtain t2 cnt' where b: "firstCycle thirteenByTwelve = Inr (t2, cnt')"
    "rect (cols thirteenByTwelve) (rows thirteenByTwelve) (heap t2 (grid t2))"
    "\<not> collapsed thirteenByTwelve cnt'"
    by (auto split: sum.splits)
  from b(1) have b': "cycle thirteenByTwelve (freshGrids thirteenByTwelve initial) = Inr (t2, cnt')"
    by (simp add: firstCycle_def seedGrid_fresh bindE_def)
  from monitor_threshold [OF a' a(2)] monitor_threshold [OF b' b(2)] a b
  show ?thesis by blast
qed

section \<open>The frame callback\<close>

lemma start_requests:
  assumes "start e t s = Some (Inr s')"
  shows "frameRequests s' = frameRequests s + 1"
proof (cases "startTime s")
  case None
  with assms show ?thesis
    by (auto simp: start_first)
next
  case (Some tp)
  show ?thesis
  proof (cases "stepInMs < minus64 t tp")
    case True
    from assms obtain s2 where u: "update e (s\<lparr>drawCount := drawCount s + 1, startTime := Some t\<rparr>)
        = Some (Inr s2)" and "s' = s2\<lparr>frameRequests := frameRequests s2 + 1\<rparr>"
      unfolding start_due [OF Some True]
      by (auto split: option.splits sum.splits)
    with update_Some(3) [OF u] show ?thesis
      by simp
  next
    case False
    with assms Some show ?thesis
      by (auto simp: start_wait)
  qed
qed

lemma start_twice:
  assumes "startTime s = Some tp" and "stepInMs < minus64 t tp"
    and "cycle e (s\<lparr>drawCount := drawCount s + 1, startTime := Some t\<rparr>) = Inr (s2, cnt)"
    and "collapsed e cnt" and "start e t s = Some (Inr s')"
  shows "clearCalls s + 2 \<le> clearCalls s'"
proof -
  from assms(5) obtain s3 where u: "update e (s\<lparr>drawCount := drawCount s + 1, startTime := Some t\<rparr>)
      = Some (Inr s3)" and "s' = s3\<lparr>frameRequests := frameRequests s3 + 1\<rparr>"
    unfolding start_due [OF assms(1,2)]
    by (auto split: option.splits sum.splits)
  with update_twice [OF assms(3,4) u] show ?thesis
    by simp
qed

lemma start_once:
  assumes "startTime s = Some tp" and "stepInMs < minus64 t tp"
    and "cycle e (s\<lparr>drawCount := drawCount s + 1, startTime := Some t\<rparr>) = Inr (sn, cnt)"
    and "\<not> collapsed e cnt"
  shows "start e t s = Some (Inr (sn\<lparr>frameRequests := frameRequests sn + 1\<rparr>))"
    and "clearCalls sn = clearCalls s + 1"
proof -
  from update_survives [OF assms(3,4)]
  show "start e t s = Some (Inr (sn\<lparr>frameRequests := frameRequests sn + 1\<rparr>))"
    unfolding start_due [OF assms(1,2)] by simp
  from cycle_frame(3) [OF assms(3)] show "clearCalls sn = clearCalls s + 1"
    by simp
qed

text \<open>
  C6, as the specification states it, fails. On a canvas of 12 by 12 pixels seeded with the column
  \<open>x = 1\<close>, the program starts after one cycle; the callback at 0 ms makes none; the
  callback at 501 ms makes two: the step in place kills every cell, the monitor reseeds,
  and the new grid is stepped and counted before the callback returns.
\<close>

theorem one_cycle_counterexample:
  "clearsOf (main columnSeed) = Some (Inr 1) \<and>
   clearsOf (run columnSeed [0]) = Some (Inr 1) \<and>
   clearsOf (run columnSeed [0, 501]) = Some (Inr 3)"
  by code_simp

text \<open>
  C6, amended: the first callback only records the timestamp; a later callback sets
  \<open>startTime\<close> to the timestamp and calls \<open>update\<close> once if \<open>timestamp - startTime > 500\<close>
  as the doubles are subtracted, which is when the exact difference exceeds 500 by more
  than \<open>2 powi (- 45)\<close>, and any other later callback makes no step. That one call of
  \<open>update\<close> makes exactly one cycle of step and monitor when the population has not
  collapsed, and the callback then returns; when it has collapsed, \<open>update\<close> goes on with
  \<open>populateGrid\<close>, which makes further cycles. Every callback that returns has asked for
  the next frame once; one whose \<open>update\<close> throws or does not return has not.
\<close>

theorem start_paces:
  "(startTime s = None \<longrightarrow>
      start e t s = Some (Inr (s\<lparr>startTime := Some t, frameRequests := frameRequests s + 1\<rparr>))) \<and>
   (stepInMs < minus64 t tp) = (500 + 1 / 2 ^ 45 < t - tp) \<and>
   (startTime s = Some tp \<and> \<not> stepInMs < minus64 t tp \<longrightarrow>
      start e t s = Some (Inr (s\<lparr>frameRequests := frameRequests s + 1\<rparr>))) \<and>
   (startTime s = Some tp \<and> stepInMs < minus64 t tp \<longrightarrow>
      start e t s =
        (case update e (s\<lparr>drawCount := drawCount s + 1, startTime := Some t\<rparr>) of
           None \<Rightarrow> None
         | Some (Inl err) \<Rightarrow> Some (Inl err)
         | Some (Inr sn) \<Rightarrow> Some (Inr (sn\<lparr>frameRequests := frameRequests sn + 1\<rparr>)))) \<and>
   (cycle e s = Inr (sn, cnt) \<and> \<not> collapsed e cnt \<longrightarrow>
      update e s = Some (Inr sn) \<and> clearCalls sn = clearCalls s + 1) \<and>
   (cycle e s = Inr (sn, cnt) \<and> collapsed e cnt \<longrightarrow> update e s = populateGrid e sn) \<and>
   (startTime s = Some tp \<and> stepInMs < minus64 t tp \<and>
    cycle e (s\<lparr>drawCount := drawCount s + 1, startTime := Some t\<rparr>) = Inr (sn, cnt) \<and>
    \<not> collapsed e cnt \<longrightarrow>
      start e t s = Some (Inr (sn\<lparr>frameRequests := frameRequests sn + 1\<rparr>)) \<and>
      clearCalls sn = clearCalls s + 1) \<and>
   (start e t s = Some (Inr s') \<longrightarrow> frameRequests s' = frameRequests s + 1)"
proof (intro conjI impI)
  assume "startTime s = None"
  then show "start e t s =
      Some (Inr (s\<lparr>startTime := Some t, frameRequests := frameRequests s + 1\<rparr>))"
    by (rule start_first)
next
  show "(stepInMs < minus64 t tp) = (500 + 1 / 2 ^ 45 < t - tp)"
    by (rule due_iff)
next
  assume "startTime s = Some tp \<and> \<not> stepInMs < minus64 t tp"
  then show "start e t s = Some (Inr (s\<lparr>frameRequests := frameRequests s + 1\<rparr>))"
    by (simp add: start_wait)
next
  assume "startTime s = Some tp \<and> stepInMs < minus64 t tp"
  then show "start e t s =
        (case update e (s\<lparr>drawCount := drawCount s + 1, startTime := Some t\<rparr>) of
           None \<Rightarrow> None
         | Some (Inl err) \<Rightarrow> Some (Inl err)
         | Some (Inr sn) \<Rightarrow> Some (Inr (sn\<lparr>frameRequests := frameRequests sn + 1\<rparr>)))"
    by (simp add: start_due)
next
  assume a: "cycle e s = Inr (sn, cnt) \<and> \<not> collapsed e cnt"
  then show "update e s = Some (Inr sn)"
    by (simp add: update_survives)
  from a have "cycle e s = Inr (sn, cnt)"
    by simp
  then show "clearCalls sn = clearCalls s + 1"
    by (rule cycle_frame(3))
next
  assume "cycle e s = Inr (sn, cnt) \<and> collapsed e cnt"
  then show "update e s = populateGrid e sn"
    by (simp add: update_collapsed)
next
  assume a: "startTime s = Some tp \<and> stepInMs < minus64 t tp \<and>
    cycle e (s\<lparr>drawCount := drawCount s + 1, startTime := Some t\<rparr>) = Inr (sn, cnt) \<and>
    \<not> collapsed e cnt"
  then have h: "startTime s = Some tp" "stepInMs < minus64 t tp"
    "cycle e (s\<lparr>drawCount := drawCount s + 1, startTime := Some t\<rparr>) = Inr (sn, cnt)"
    "\<not> collapsed e cnt"
    by simp_all
  show "start e t s = Some (Inr (sn\<lparr>frameRequests := frameRequests sn + 1\<rparr>))"
    by (rule start_once(1) [OF h])
  show "clearCalls sn = clearCalls s + 1"
    by (rule start_once(2) [OF h])
next
  assume "start e t s = Some (Inr s')"
  then show "frameRequests s' = frameRequests s + 1"
    by (rule start_requests)
qed

theorem start_paces_witness:
  "start rowSeed 0 blinker =
     Some (Inr (blinker\<lparr>startTime := Some 0, frameRequests := frameRequests blinker + 1\<rparr>)) \<and>
   start rowSeed 500 (blinker\<lparr>startTime := Some 0\<rparr>) =
     Some (Inr (blinker\<lparr>startTime := Some 0, frameRequests := frameRequests blinker + 1\<rparr>)) \<and>
   500 < fiveHundredAndTenth - tenth \<and> minus64 fiveHundredAndTenth tenth = 500 \<and>
   start rowSeed fiveHundredAndTenth (blinker\<lparr>startTime := Some tenth\<rparr>) =
     Some (Inr (blinker\<lparr>startTime := Some tenth, frameRequests := frameRequests blinker + 1\<rparr>)) \<and>
   (\<exists>sn cnt. cycle rowSeed blinker = Inr (sn, cnt) \<and> \<not> collapsed rowSeed cnt \<and>
      update rowSeed blinker = Some (Inr sn) \<and> clearCalls sn = clearCalls blinker + 1) \<and>
   (\<exists>sn cnt. cycle columnSeed aliased = Inr (sn, cnt) \<and> collapsed columnSeed cnt \<and>
      update columnSeed aliased = populateGrid columnSeed sn) \<and>
   (\<exists>sn. start rowSeed 501 (blinker\<lparr>startTime := Some 0\<rparr>) =
        Some (Inr (sn\<lparr>frameRequests := frameRequests sn + 1\<rparr>)) \<and>
      clearCalls sn = clearCalls (blinker\<lparr>startTime := Some 0\<rparr>) + 1 \<and>
      frameRequests (sn\<lparr>frameRequests := frameRequests sn + 1\<rparr>) =
        frameRequests (blinker\<lparr>startTime := Some 0\<rparr>) + 1)"
proof -
  let ?b = "blinker\<lparr>startTime := Some 0\<rparr>"
  let ?c = "blinker\<lparr>startTime := Some tenth\<rparr>"
  have n: "startTime blinker = None"
    by (simp add: blinker_def initial_def)
  have m: "minus64 500 0 = 500" "minus64 501 0 = 501" "minus64 fiveHundredAndTenth tenth = 500"
    and x: "500 < fiveHundredAndTenth - tenth"
    by code_simp+
  have z: "startTime ?b = Some 0 \<and> \<not> stepInMs < minus64 500 0"
    by (simp add: stepInMs_def m)
  have y: "startTime ?c = Some tenth \<and> \<not> stepInMs < minus64 fiveHundredAndTenth tenth"
    by (simp add: stepInMs_def m)
  note first = start_paces [where s = blinker and e = rowSeed and t = 0,
      THEN conjunct1, rule_format, OF n]
  have wait: "start rowSeed 500 ?b =
     Some (Inr (blinker\<lparr>startTime := Some 0, frameRequests := frameRequests blinker + 1\<rparr>))"
    using start_paces [where s = ?b and e = rowSeed and t = 500 and tp = 0,
      THEN conjunct2, THEN conjunct2, THEN conjunct1, rule_format, OF z]
    by simp
  have round: "start rowSeed fiveHundredAndTenth ?c =
     Some (Inr (blinker\<lparr>startTime := Some tenth, frameRequests := frameRequests blinker + 1\<rparr>))"
    using start_paces [where s = ?c and e = rowSeed and t = fiveHundredAndTenth and tp = tenth,
      THEN conjunct2, THEN conjunct2, THEN conjunct1, rule_format, OF y]
    by simp
  have "case cycle rowSeed blinker of Inl err \<Rightarrow> False
        | Inr (sn, cnt) \<Rightarrow> \<not> collapsed rowSeed cnt"
    by code_simp
  then obtain sn cnt where a: "cycle rowSeed blinker = Inr (sn, cnt) \<and> \<not> collapsed rowSeed cnt"
    by (auto split: sum.splits)
  note survive = start_paces [where s = blinker and e = rowSeed and sn = sn and cnt = cnt,
      THEN conjunct2, THEN conjunct2, THEN conjunct2, THEN conjunct2, THEN conjunct1, rule_format, OF a]
  have "case cycle columnSeed aliased of Inl err \<Rightarrow> False
        | Inr (sn, cnt) \<Rightarrow> collapsed columnSeed cnt"
    by code_simp
  then obtain tn cnt' where b: "cycle columnSeed aliased = Inr (tn, cnt') \<and> collapsed columnSeed cnt'"
    by (auto split: sum.splits)
  note reseed = start_paces [where s = aliased and e = columnSeed and sn = tn and cnt = cnt',
      THEN conjunct2, THEN conjunct2, THEN conjunct2, THEN conjunct2, THEN conjunct2, THEN conjunct1, rule_format, OF b]
  have "case cycle rowSeed (?b\<lparr>drawCount := drawCount ?b + 1, startTime := Some 501\<rparr>) of
          Inl err \<Rightarrow> False
        | Inr (sn, cnt) \<Rightarrow> \<not> collapsed rowSeed cnt"
    by code_simp
  then obtain un cnt'' where
    "cycle rowSeed (?b\<lparr>drawCount := drawCount ?b + 1, startTime := Some 501\<rparr>) = Inr (un, cnt'')"
    and "\<not> collapsed rowSeed cnt''"
    by (auto split: sum.splits)
  then have c: "startTime ?b = Some 0 \<and> stepInMs < minus64 501 0 \<and>
    cycle rowSeed (?b\<lparr>drawCount := drawCount ?b + 1, startTime := Some 501\<rparr>) = Inr (un, cnt'') \<and>
    \<not> collapsed rowSeed cnt''"
    by (simp add: stepInMs_def m)
  note once = start_paces [where s = ?b and e = rowSeed and t = 501 and tp = 0 and sn = un
      and cnt = cnt'', THEN conjunct2, THEN conjunct2, THEN conjunct2, THEN conjunct2, THEN conjunct2, THEN conjunct2, THEN conjunct1, rule_format, OF c]
  from once have o1: "start rowSeed 501 ?b = Some (Inr (un\<lparr>frameRequests := frameRequests un + 1\<rparr>))"
    and o2: "clearCalls un = clearCalls ?b + 1"
    by blast+
  note req = start_paces [where s = ?b and e = rowSeed and t = 501
      and s' = "un\<lparr>frameRequests := frameRequests un + 1\<rparr>",
      THEN conjunct2, THEN conjunct2, THEN conjunct2, THEN conjunct2, THEN conjunct2, THEN conjunct2, THEN conjunct2, rule_format, OF o1]
  show ?thesis
  proof (intro conjI)
    show "start rowSeed 0 blinker =
      Some (Inr (blinker\<lparr>startTime := Some 0, frameRequests := frameRequests blinker + 1\<rparr>))"
      by (rule first)
    show "start rowSeed 500 ?b =
      Some (Inr (blinker\<lparr>startTime := Some 0, frameRequests := frameRequests blinker + 1\<rparr>))"
      by (rule wait)
    show "500 < fiveHundredAndTenth - tenth"
      by (rule x)
    show "minus64 fiveHundredAndTenth tenth = 500"
      by (rule m(3))
    show "start rowSeed fiveHundredAndTenth ?c =
      Some (Inr (blinker\<lparr>startTime := Some tenth, frameRequests := frameRequests blinker + 1\<rparr>))"
      by (rule round)
    from a survive have "cycle rowSeed blinker = Inr (sn, cnt) \<and> \<not> collapsed rowSeed cnt \<and>
      update rowSeed blinker = Some (Inr sn) \<and> clearCalls sn = clearCalls blinker + 1"
      by blast
    then show "\<exists>sn cnt. cycle rowSeed blinker = Inr (sn, cnt) \<and> \<not> collapsed rowSeed cnt \<and>
      update rowSeed blinker = Some (Inr sn) \<and> clearCalls sn = clearCalls blinker + 1"
      by (intro exI)
    from b reseed have "cycle columnSeed aliased = Inr (tn, cnt') \<and> collapsed columnSeed cnt' \<and>
      update columnSeed aliased = populateGrid columnSeed tn"
      by blast
    then show "\<exists>sn cnt. cycle columnSeed aliased = Inr (sn, cnt) \<and> collapsed columnSeed cnt \<and>
      update columnSeed aliased = populateGrid columnSeed sn"
      by (intro exI)
    from o1 o2 req have "start rowSeed 501 ?b =
        Some (Inr (un\<lparr>frameRequests := frameRequests un + 1\<rparr>)) \<and>
      clearCalls un = clearCalls ?b + 1 \<and>
      frameRequests (un\<lparr>frameRequests := frameRequests un + 1\<rparr>) = frameRequests ?b + 1"
      by blast
    then show "\<exists>sn. start rowSeed 501 ?b =
        Some (Inr (sn\<lparr>frameRequests := frameRequests sn + 1\<rparr>)) \<and>
      clearCalls sn = clearCalls ?b + 1 \<and>
      frameRequests (sn\<lparr>frameRequests := frameRequests sn + 1\<rparr>) = frameRequests ?b + 1"
      by (intro exI)
  qed
qed

section \<open>Reseeding\<close>

lemma collapses_update:
  assumes "collapses e n s = Some sk"
  shows "update e s = update e sk \<and> clearCalls sk = clearCalls s + n"
  using assms
proof (induction n arbitrary: s)
  case 0
  then show ?case by simp
next
  case (Suc n)
  then obtain sn cnt where c: "cycle e s = Inr (sn, cnt)" "collapsed e cnt"
    and k: "collapses e n (freshGrids e sn) = Some sk"
    by (auto split: sum.splits if_splits)
  from update_collapsed [OF c] have "update e s = update e (freshGrids e sn)"
    by (simp add: populateGrid_def seedGrid_fresh)
  moreover have "clearCalls (freshGrids e sn) = clearCalls s + 1"
    using cycle_frame(3) [OF c(1)] by (simp add: freshGrids_def)
  ultimately show ?case
    using Suc.IH [OF k] by simp
qed

lemma update_returns_finite:
  assumes "update e s = Some y"
  shows "\<exists>n. collapses e n s = None"
proof (rule update.raw_induct [where P = "\<lambda>e s y. \<exists>n. collapses e n s = None", OF _ assms])
  fix upd :: "env \<Rightarrow> state \<Rightarrow> (error + state) option" and e s y
  assume IH: "\<And>e s y. upd e s = Some y \<Longrightarrow> \<exists>n. collapses e n s = None"
    and body: "(case cycle e s of
        Inl err \<Rightarrow> Some (Inl err)
      | Inr (s2, cnt) \<Rightarrow>
          if collapsed e cnt
          then (case seedGrid e s2 of
                  Inl err \<Rightarrow> Some (Inl err)
                | Inr s3 \<Rightarrow> upd e s3)
          else Some (Inr s2)) = Some y"
  show "\<exists>n. collapses e n s = None"
  proof (cases "cycle e s")
    case (Inl err)
    then have "collapses e (Suc 0) s = None" by simp
    then show ?thesis by blast
  next
    case (Inr p)
    obtain sn cnt where p: "p = (sn, cnt)" by (cases p)
    show ?thesis
    proof (cases "collapsed e cnt")
      case True
      with body Inr p have "upd e (freshGrids e sn) = Some y"
        by (simp add: seedGrid_fresh)
      from IH [OF this] obtain n where "collapses e n (freshGrids e sn) = None"
        by blast
      with Inr p True have "collapses e (Suc n) s = None" by simp
      then show ?thesis by blast
    next
      case False
      with Inr p have "collapses e (Suc 0) s = None" by simp
      then show ?thesis by blast
    qed
  qed
qed

lemma liveCount_dead: "liveCount (deadGrid W H) = 0"
  by (simp add: liveCount_def deadGrid_def present_def sum_list_replicate)

lemma seeded_dead:
  assumes "\<forall>n. random e n \<le> 1 / 2"
  shows "seeded e k = deadGrid (cols e) (rows e)"
proof -
  have "coin e n = Num 0" for n
    using assms [rule_format, of n] by (simp add: coin_def)
  then show ?thesis
    by (simp add: seeded_def deadGrid_def map_replicate_const)
qed

lemma cycle_dead:
  assumes "heap s (grid s) = deadGrid (cols e) (rows e)"
    and "rect (cols e) (rows e) (heap s (tempGrid s))"
  shows "cycle e s = Inr (s\<lparr>clearCalls := clearCalls s + 1,
      heap := (heap s)(tempGrid s := deadGrid (cols e) (rows e)), grid := tempGrid s\<rparr>, 0)"
proof -
  let ?s = "s\<lparr>clearCalls := clearCalls s + 1\<rparr>"
  let ?t = "?s\<lparr>heap := (heap ?s)(tempGrid ?s := deadGrid (cols e) (rows e)), grid := tempGrid ?s\<rparr>"
  have "heap ?s (grid ?s) = deadGrid (cols e) (rows e)"
    and "rect (cols e) (rows e) (heap ?s (tempGrid ?s))"
    using assms by simp_all
  then have st: "step e ?s = Inr ?t"
    by (rule step_dead)
  have "rect (cols e) (rows e) (heap ?t (grid ?t))"
    by (simp add: rect_deadGrid)
  then have "drawCells e ?t = Inr (liveCount (heap ?t (grid ?t)))"
    by (rule drawCells_liveCount)
  then have "drawCells e ?t = Inr 0"
    by (simp add: liveCount_dead)
  with st show ?thesis
    by (simp add: cycle_def bindE_def)
qed

lemma collapses_dead:
  assumes luck: "\<forall>n. random e n \<le> 1 / 2" and area: "0 < width e * height e"
    and "heap s (grid s) = deadGrid (cols e) (rows e)"
    and "rect (cols e) (rows e) (heap s (tempGrid s))"
  shows "collapses e n s \<noteq> None"
  using assms(3,4)
proof (induction n arbitrary: s)
  case 0
  then show ?case by simp
next
  case (Suc n)
  let ?sn = "s\<lparr>clearCalls := clearCalls s + 1,
      heap := (heap s)(tempGrid s := deadGrid (cols e) (rows e)), grid := tempGrid s\<rparr>"
  have c: "cycle e s = Inr (?sn, 0)"
    using Suc.prems by (rule cycle_dead)
  have "collapsed e 0"
    using area by (simp add: collapsed_iff)
  with c have "collapses e (Suc n) s = collapses e n (freshGrids e ?sn)"
    by simp
  moreover have "collapses e n (freshGrids e ?sn) \<noteq> None"
  proof (rule Suc.IH)
    show "heap (freshGrids e ?sn) (grid (freshGrids e ?sn)) = deadGrid (cols e) (rows e)"
      by (simp add: freshGrids_def seeded_dead [OF luck])
    show "rect (cols e) (rows e) (heap (freshGrids e ?sn) (tempGrid (freshGrids e ?sn)))"
      by (simp add: freshGrids_def rect_deadGrid)
  qed
  ultimately show ?case by simp
qed

lemma populateGrid_forever:
  assumes "\<forall>n. random e n \<le> 1 / 2" and "0 < width e * height e"
  shows "populateGrid e s = None"
proof -
  have "collapses e n (freshGrids e s) \<noteq> None" for n
  proof (rule collapses_dead [OF assms])
    show "heap (freshGrids e s) (grid (freshGrids e s)) = deadGrid (cols e) (rows e)"
      by (simp add: freshGrids_def seeded_dead [OF assms(1)])
    show "rect (cols e) (rows e) (heap (freshGrids e s) (tempGrid (freshGrids e s)))"
      by (simp add: freshGrids_def rect_deadGrid)
  qed
  with update_returns_finite [of e "freshGrids e s"]
  have "update e (freshGrids e s) = None"
    by (cases "update e (freshGrids e s)") auto
  then show ?thesis
    by (simp add: populateGrid_def seedGrid_fresh)
qed

lemma update_after:
  assumes "collapses e n s = Some sk" and "cycle e sk = Inr (sn, cnt)" and "\<not> collapsed e cnt"
  shows "update e s = Some (Inr sn)" and "clearCalls sn = clearCalls s + n + 1"
proof -
  note cu = collapses_update [OF assms(1)]
  from cu update_survives [OF assms(2,3)] show "update e s = Some (Inr sn)"
    by simp
  from cu cycle_frame(3) [OF assms(2)] show "clearCalls sn = clearCalls s + n + 1"
    by simp
qed

lemma update_throws:
  assumes "collapses e n s = Some sk" and "cycle e sk = Inl err"
  shows "update e s = Some (Inl err)"
proof -
  from assms(2) have "update e sk = Some (Inl err)"
    by (subst update.simps) simp
  with collapses_update [OF assms(1)] show ?thesis
    by simp
qed

lemma collapses_stops:
  assumes "collapses e k s = None"
  shows "\<exists>n sk. collapses e n s = Some sk \<and>
     ((\<exists>err. cycle e sk = Inl err) \<or> (\<exists>sn cnt. cycle e sk = Inr (sn, cnt) \<and> \<not> collapsed e cnt))"
  using assms
proof (induction k arbitrary: s)
  case 0
  then show ?case by simp
next
  case (Suc k)
  have z: "collapses e 0 s = Some s" by simp
  show ?case
  proof (cases "cycle e s")
    case (Inl err)
    with z show ?thesis by blast
  next
    case (Inr p)
    obtain sn cnt where p: "p = (sn, cnt)" by (cases p)
    show ?thesis
    proof (cases "collapsed e cnt")
      case True
      with Suc.prems Inr p have "collapses e k (freshGrids e sn) = None"
        by simp
      from Suc.IH [OF this] obtain n sk where n: "collapses e n (freshGrids e sn) = Some sk"
        and c: "(\<exists>err. cycle e sk = Inl err) \<or>
          (\<exists>sn cnt. cycle e sk = Inr (sn, cnt) \<and> \<not> collapsed e cnt)"
        by blast
      from n Inr p True have "collapses e (Suc n) s = Some sk"
        by simp
      with c show ?thesis by blast
    next
      case False
      with Inr p z show ?thesis by blast
    qed
  qed
qed

lemma update_None_iff: "(update e s = None) = (\<forall>k. collapses e k s \<noteq> None)"
proof
  assume none: "update e s = None"
  show "\<forall>k. collapses e k s \<noteq> None"
  proof (intro allI notI)
    fix k
    assume "collapses e k s = None"
    from collapses_stops [OF this] obtain n sk where n: "collapses e n s = Some sk"
      and c: "(\<exists>err. cycle e sk = Inl err) \<or>
        (\<exists>sn cnt. cycle e sk = Inr (sn, cnt) \<and> \<not> collapsed e cnt)"
      by blast
    from c show False
    proof
      assume "\<exists>err. cycle e sk = Inl err"
      then obtain err where "cycle e sk = Inl err" by blast
      from update_throws [OF n this] none show False by simp
    next
      assume "\<exists>sn cnt. cycle e sk = Inr (sn, cnt) \<and> \<not> collapsed e cnt"
      then obtain sn cnt where "cycle e sk = Inr (sn, cnt)" and "\<not> collapsed e cnt" by blast
      from update_after(1) [OF n this] none show False by simp
    qed
  qed
next
  assume all: "\<forall>k. collapses e k s \<noteq> None"
  show "update e s = None"
  proof (cases "update e s")
    case None
    then show ?thesis .
  next
    case (Some y)
    from update_returns_finite [OF this] all show ?thesis
      by blast
  qed
qed

lemma update_Some_cycles:
  assumes "update e s = Some (Inr s')"
  shows "\<exists>n sk cnt. collapses e n s = Some sk \<and> cycle e sk = Inr (s', cnt) \<and>
     \<not> collapsed e cnt \<and> clearCalls s' = clearCalls s + n + 1"
proof -
  from update_returns_finite [OF assms] obtain k where "collapses e k s = None"
    by blast
  from collapses_stops [OF this] obtain n sk where n: "collapses e n s = Some sk"
    and c: "(\<exists>err. cycle e sk = Inl err) \<or>
      (\<exists>sn cnt. cycle e sk = Inr (sn, cnt) \<and> \<not> collapsed e cnt)"
    by blast
  from c show ?thesis
  proof
    assume "\<exists>err. cycle e sk = Inl err"
    then obtain err where "cycle e sk = Inl err" by blast
    from update_throws [OF n this] assms show ?thesis by simp
  next
    assume "\<exists>sn cnt. cycle e sk = Inr (sn, cnt) \<and> \<not> collapsed e cnt"
    then obtain sn cnt where s: "cycle e sk = Inr (sn, cnt)" "\<not> collapsed e cnt" by blast
    from update_after [OF n s] assms have "sn = s'" and "clearCalls sn = clearCalls s + n + 1"
      by simp_all
    with n s show ?thesis by blast
  qed
qed

lemma start_after:
  assumes "startTime s = Some tp" and "stepInMs < minus64 t tp"
    and "collapses e n (s\<lparr>drawCount := drawCount s + 1, startTime := Some t\<rparr>) = Some sk"
    and "cycle e sk = Inr (sn, cnt)" and "\<not> collapsed e cnt"
  shows "start e t s = Some (Inr (sn\<lparr>frameRequests := frameRequests sn + 1\<rparr>))"
    and "clearCalls sn = clearCalls s + n + 1"
proof -
  from update_after(1) [OF assms(3,4,5)]
  show "start e t s = Some (Inr (sn\<lparr>frameRequests := frameRequests sn + 1\<rparr>))"
    unfolding start_due [OF assms(1,2)] by simp
  from update_after(2) [OF assms(3,4,5)] show "clearCalls sn = clearCalls s + n + 1"
    by simp
qed

text \<open>
  C10: the seeding of \<open>populateGrid\<close> puts two new arrays of \<open>W\<close> by \<open>H\<close> cells at the next
  two addresses, the one named by \<open>grid\<close> with a live cell wherever a call of
  \<open>Math.random\<close> exceeded one half, the one named by \<open>tempGrid\<close> all dead; then
  \<open>populateGrid\<close> is \<open>update\<close> on that state. An \<open>update\<close> whose monitor fires goes on as
  \<open>update\<close> on the new grids, and again for as long as the population of each new seeding
  collapses. If after \<open>n\<close> collapses in a row the next cycle leaves a population that has
  not collapsed, \<open>update\<close> returns the state that cycle left, having made exactly
  \<open>n + 1\<close> cycles, and \<open>populateGrid\<close> and the frame callback return likewise: with at
  least two cycles when a reseeding fired. If that next cycle throws, \<open>update\<close> throws.
  \<open>update\<close> fails to return exactly when every seeding collapses.
\<close>

theorem populateGrid_reseeds:
  "seedGrid e s = Inr (freshGrids e s) \<and>
   grid (freshGrids e s) = nextAddr s \<and> tempGrid (freshGrids e s) = nextAddr s + 1 \<and>
   heap (freshGrids e s) (grid (freshGrids e s)) = seeded e (randomCalls s) \<and>
   heap (freshGrids e s) (tempGrid (freshGrids e s)) = deadGrid (cols e) (rows e) \<and>
   (\<forall>r. r < nextAddr s \<longrightarrow> heap (freshGrids e s) r = heap s r) \<and>
   (\<forall>x < cols e. \<forall>y < rows e.
      seeded e (randomCalls s) ! x ! y =
        (if random e (randomCalls s + x * rows e + y) > 1 / 2 then Num 1 else Num 0)) \<and>
   populateGrid e s = update e (freshGrids e s) \<and>
   (cycle e s = Inr (sn, cnt) \<and> collapsed e cnt \<longrightarrow>
      update e s = populateGrid e sn \<and> update e s = update e (freshGrids e sn) \<and>
      collapses e 1 s = Some (freshGrids e sn) \<and>
      (update e s = Some (Inr s') \<longrightarrow> clearCalls s + 2 \<le> clearCalls s')) \<and>
   (collapses e n s = Some sk \<longrightarrow>
      update e s = update e sk \<and> clearCalls sk = clearCalls s + n \<and>
      (update e s = Some (Inr s') \<longrightarrow> clearCalls s + n + 1 \<le> clearCalls s')) \<and>
   (collapses e n s = Some sk \<and> cycle e sk = Inr (sn, cnt) \<and> \<not> collapsed e cnt \<longrightarrow>
      update e s = Some (Inr sn) \<and> clearCalls sn = clearCalls s + n + 1) \<and>
   (collapses e n s = Some sk \<and> cycle e sk = Inl err \<longrightarrow> update e s = Some (Inl err)) \<and>
   (update e s = None) = (\<forall>k. collapses e k s \<noteq> None) \<and>
   (update e s = Some (Inr s') \<longrightarrow>
      (\<exists>m sm c. collapses e m s = Some sm \<and> cycle e sm = Inr (s', c) \<and> \<not> collapsed e c \<and>
         clearCalls s' = clearCalls s + m + 1)) \<and>
   (collapses e n (freshGrids e s) = Some sk \<and> cycle e sk = Inr (sn, cnt) \<and>
    \<not> collapsed e cnt \<longrightarrow>
      populateGrid e s = Some (Inr sn) \<and> clearCalls sn = clearCalls s + n + 1) \<and>
   (startTime s = Some tp \<and> stepInMs < minus64 t tp \<and>
    collapses e n (s\<lparr>drawCount := drawCount s + 1, startTime := Some t\<rparr>) = Some sk \<and>
    cycle e sk = Inr (sn, cnt) \<and> \<not> collapsed e cnt \<longrightarrow>
      start e t s = Some (Inr (sn\<lparr>frameRequests := frameRequests sn + 1\<rparr>)) \<and>
      clearCalls sn = clearCalls s + n + 1) \<and>
   (startTime s = Some tp \<and> stepInMs < minus64 t tp \<and>
    cycle e (s\<lparr>drawCount := drawCount s + 1, startTime := Some t\<rparr>) = Inr (sn, cnt) \<and>
    collapsed e cnt \<and> start e t s = Some (Inr s') \<longrightarrow> clearCalls s + 2 \<le> clearCalls s')"
proof (intro conjI allI impI)
  show "seedGrid e s = Inr (freshGrids e s)"
    by (rule seedGrid_fresh)
  show "grid (freshGrids e s) = nextAddr s"
    and "tempGrid (freshGrids e s) = nextAddr s + 1"
    and "heap (freshGrids e s) (grid (freshGrids e s)) = seeded e (randomCalls s)"
    and "heap (freshGrids e s) (tempGrid (freshGrids e s)) = deadGrid (cols e) (rows e)"
    by (simp_all add: freshGrids_def)
  show "populateGrid e s = update e (freshGrids e s)"
    by (simp add: populateGrid_def seedGrid_fresh)
  show "heap (freshGrids e s) r = heap s r" if "r < nextAddr s" for r
    using that by (simp add: freshGrids_def)
  show "seeded e (randomCalls s) ! x ! y =
        (if random e (randomCalls s + x * rows e + y) > 1 / 2 then Num 1 else Num 0)"
    if "x < cols e" and "y < rows e" for x y
    using that by (simp add: seeded_def coin_def)
  show "(update e s = None) = (\<forall>k. collapses e k s \<noteq> None)"
    by (rule update_None_iff)
next
  assume "cycle e s = Inr (sn, cnt) \<and> collapsed e cnt"
  then have c: "cycle e s = Inr (sn, cnt)" "collapsed e cnt"
    by simp_all
  show u: "update e s = populateGrid e sn"
    by (rule update_collapsed [OF c])
  then show "update e s = update e (freshGrids e sn)"
    by (simp add: populateGrid_def seedGrid_fresh)
  from c show "collapses e 1 s = Some (freshGrids e sn)"
    by simp
  show "clearCalls s + 2 \<le> clearCalls s'" if "update e s = Some (Inr s')"
    by (rule update_twice [OF c that])
next
  assume k: "collapses e n s = Some sk"
  note cu = collapses_update [OF k]
  from cu show "update e s = update e sk" and "clearCalls sk = clearCalls s + n"
    by simp_all
  show "clearCalls s + n + 1 \<le> clearCalls s'" if "update e s = Some (Inr s')"
  proof -
    from that cu have "update e sk = Some (Inr s')"
      by simp
    from update_Some(2) [OF this] cu show ?thesis
      by simp
  qed
next
  assume "collapses e n s = Some sk \<and> cycle e sk = Inr (sn, cnt) \<and> \<not> collapsed e cnt"
  then have h: "collapses e n s = Some sk" "cycle e sk = Inr (sn, cnt)" "\<not> collapsed e cnt"
    by simp_all
  show "update e s = Some (Inr sn)"
    by (rule update_after(1) [OF h])
  show "clearCalls sn = clearCalls s + n + 1"
    by (rule update_after(2) [OF h])
next
  assume "collapses e n s = Some sk \<and> cycle e sk = Inl err"
  then have "collapses e n s = Some sk" and "cycle e sk = Inl err"
    by simp_all
  then show "update e s = Some (Inl err)"
    by (rule update_throws)
next
  assume "update e s = Some (Inr s')"
  then show "\<exists>m sm c. collapses e m s = Some sm \<and> cycle e sm = Inr (s', c) \<and>
      \<not> collapsed e c \<and> clearCalls s' = clearCalls s + m + 1"
    by (rule update_Some_cycles)
next
  assume "collapses e n (freshGrids e s) = Some sk \<and> cycle e sk = Inr (sn, cnt) \<and>
    \<not> collapsed e cnt"
  then have h: "collapses e n (freshGrids e s) = Some sk" "cycle e sk = Inr (sn, cnt)"
    "\<not> collapsed e cnt"
    by simp_all
  from update_after(1) [OF h] show "populateGrid e s = Some (Inr sn)"
    by (simp add: populateGrid_def seedGrid_fresh)
  from update_after(2) [OF h] show "clearCalls sn = clearCalls s + n + 1"
    by (simp add: freshGrids_def)
next
  assume "startTime s = Some tp \<and> stepInMs < minus64 t tp \<and>
    collapses e n (s\<lparr>drawCount := drawCount s + 1, startTime := Some t\<rparr>) = Some sk \<and>
    cycle e sk = Inr (sn, cnt) \<and> \<not> collapsed e cnt"
  then have h: "startTime s = Some tp" "stepInMs < minus64 t tp"
    "collapses e n (s\<lparr>drawCount := drawCount s + 1, startTime := Some t\<rparr>) = Some sk"
    "cycle e sk = Inr (sn, cnt)" "\<not> collapsed e cnt"
    by simp_all
  show "start e t s = Some (Inr (sn\<lparr>frameRequests := frameRequests sn + 1\<rparr>))"
    by (rule start_after(1) [OF h])
  show "clearCalls sn = clearCalls s + n + 1"
    by (rule start_after(2) [OF h])
next
  assume "startTime s = Some tp \<and> stepInMs < minus64 t tp \<and>
    cycle e (s\<lparr>drawCount := drawCount s + 1, startTime := Some t\<rparr>) = Inr (sn, cnt) \<and>
    collapsed e cnt \<and> start e t s = Some (Inr s')"
  then have "startTime s = Some tp" and "stepInMs < minus64 t tp"
    and "cycle e (s\<lparr>drawCount := drawCount s + 1, startTime := Some t\<rparr>) = Inr (sn, cnt)"
    and "collapsed e cnt" and "start e t s = Some (Inr s')"
    by simp_all
  then show "clearCalls s + 2 \<le> clearCalls s'"
    by (rule start_twice)
qed

theorem populateGrid_reseeds_witness:
  "seedGrid columnSeed initial = Inr (freshGrids columnSeed initial) \<and>
   heap (freshGrids columnSeed initial) (grid (freshGrids columnSeed initial)) =
     [[Num 0, Num 0, Num 0], [Num 1, Num 1, Num 1], [Num 0, Num 0, Num 0]] \<and>
   heap (freshGrids columnSeed initial) (tempGrid (freshGrids columnSeed initial)) =
     [[Num 0, Num 0, Num 0], [Num 0, Num 0, Num 0], [Num 0, Num 0, Num 0]] \<and>
   (\<exists>sn. populateGrid columnSeed initial = Some (Inr sn) \<and>
      clearCalls sn = clearCalls initial + 1) \<and>
   (\<exists>sn cnt s'. cycle columnSeed aliased = Inr (sn, cnt) \<and> collapsed columnSeed cnt \<and>
      update columnSeed aliased = Some (Inr s') \<and>
      update columnSeed aliased = update columnSeed (freshGrids columnSeed sn) \<and>
      clearCalls aliased + 2 \<le> clearCalls s') \<and>
   (\<exists>sk sn cnt. collapses columnSeed 1 aliased = Some sk \<and>
      cycle columnSeed sk = Inr (sn, cnt) \<and> \<not> collapsed columnSeed cnt \<and>
      update columnSeed aliased = update columnSeed sk \<and>
      update columnSeed aliased = Some (Inr sn) \<and>
      clearCalls sn = clearCalls aliased + 2) \<and>
   (\<exists>s' m sm c. update columnSeed aliased = Some (Inr s') \<and>
      collapses columnSeed m aliased = Some sm \<and> cycle columnSeed sm = Inr (s', c) \<and>
      \<not> collapsed columnSeed c \<and> clearCalls s' = clearCalls aliased + m + 1) \<and>
   cycle rowSeed initial = Inl TypeError \<and> update rowSeed initial = Some (Inl TypeError) \<and>
   (\<forall>k. collapses noLuck k barren \<noteq> None) \<and> update noLuck barren = None \<and>
   (\<exists>sn. start columnSeed 501 (aliased\<lparr>startTime := Some 0\<rparr>) =
        Some (Inr (sn\<lparr>frameRequests := frameRequests sn + 1\<rparr>)) \<and>
      clearCalls sn = clearCalls (aliased\<lparr>startTime := Some 0\<rparr>) + 2) \<and>
   (\<exists>s'. start columnSeed 501 (aliased\<lparr>startTime := Some 0\<rparr>) = Some (Inr s') \<and>
      clearCalls (aliased\<lparr>startTime := Some 0\<rparr>) + 2 \<le> clearCalls s')"
proof -
  note t = populateGrid_reseeds [where e = columnSeed and s = initial]
  have g: "seeded columnSeed (randomCalls initial) =
      [[Num 0, Num 0, Num 0], [Num 1, Num 1, Num 1], [Num 0, Num 0, Num 0]]"
    and d: "deadGrid (cols columnSeed) (rows columnSeed) =
      [[Num 0, Num 0, Num 0], [Num 0, Num 0, Num 0], [Num 0, Num 0, Num 0]]"
    by code_simp+
  note seed = t [THEN conjunct1]
  note h1 = t [THEN conjunct2, THEN conjunct2, THEN conjunct2, THEN conjunct1, unfolded g]
  note h2 = t [THEN conjunct2, THEN conjunct2, THEN conjunct2, THEN conjunct2, THEN conjunct1, unfolded d]
  \<comment> \<open>The program's first seeding does not collapse.\<close>
  have z0: "collapses columnSeed 0 (freshGrids columnSeed initial) =
      Some (freshGrids columnSeed initial)"
    by simp
  have "case cycle columnSeed (freshGrids columnSeed initial) of Inl err \<Rightarrow> False
        | Inr (sn, cnt) \<Rightarrow> \<not> collapsed columnSeed cnt"
    by code_simp
  then obtain pn pc where "cycle columnSeed (freshGrids columnSeed initial) = Inr (pn, pc)"
    and "\<not> collapsed columnSeed pc"
    by (auto split: sum.splits)
  with z0 have ph: "collapses columnSeed 0 (freshGrids columnSeed initial) =
      Some (freshGrids columnSeed initial) \<and>
    cycle columnSeed (freshGrids columnSeed initial) = Inr (pn, pc) \<and> \<not> collapsed columnSeed pc"
    by simp
  note pop = populateGrid_reseeds [where e = columnSeed and s = initial and n = 0
      and sk = "freshGrids columnSeed initial" and sn = pn and cnt = pc,
      THEN conjunct2, THEN conjunct2, THEN conjunct2, THEN conjunct2, THEN conjunct2,
      THEN conjunct2, THEN conjunct2, THEN conjunct2, THEN conjunct2, THEN conjunct2,
      THEN conjunct2, THEN conjunct2, THEN conjunct2, THEN conjunct2, THEN conjunct1, rule_format, OF ph]
  \<comment> \<open>A step in place that kills every cell, and the one seeding after it.\<close>
  have "case cycle columnSeed aliased of Inl err \<Rightarrow> False
        | Inr (sn, cnt) \<Rightarrow> collapsed columnSeed cnt"
    and "returned (update columnSeed aliased)"
    by code_simp+
  then obtain sn cnt s' where a: "cycle columnSeed aliased = Inr (sn, cnt) \<and> collapsed columnSeed cnt"
    and r: "update columnSeed aliased = Some (Inr s')"
    by (auto simp: returned_def split: option.splits sum.splits)
  note u = populateGrid_reseeds [where e = columnSeed and s = aliased and sn = sn and cnt = cnt
      and s' = s', THEN conjunct2, THEN conjunct2, THEN conjunct2, THEN conjunct2, THEN conjunct2,
      THEN conjunct2, THEN conjunct2, THEN conjunct2, THEN conjunct1, rule_format, OF a]
  have "case collapses columnSeed 1 aliased of None \<Rightarrow> False
        | Some sk \<Rightarrow> (case cycle columnSeed sk of Inl err \<Rightarrow> False
            | Inr (sn, cnt) \<Rightarrow> \<not> collapsed columnSeed cnt)"
    by code_simp
  then obtain sk kn kc where k: "collapses columnSeed 1 aliased = Some sk"
    and kh: "collapses columnSeed 1 aliased = Some sk \<and> cycle columnSeed sk = Inr (kn, kc) \<and>
      \<not> collapsed columnSeed kc"
    by (auto split: option.splits sum.splits)
  note w = populateGrid_reseeds [where e = columnSeed and s = aliased and n = 1 and sk = sk,
      THEN conjunct2, THEN conjunct2, THEN conjunct2, THEN conjunct2, THEN conjunct2,
      THEN conjunct2, THEN conjunct2, THEN conjunct2, THEN conjunct2, THEN conjunct1, rule_format, OF k]
  note v = populateGrid_reseeds [where e = columnSeed and s = aliased and n = 1 and sk = sk
      and sn = kn and cnt = kc, THEN conjunct2, THEN conjunct2, THEN conjunct2, THEN conjunct2, THEN conjunct2,
      THEN conjunct2, THEN conjunct2, THEN conjunct2, THEN conjunct2, THEN conjunct2,
      THEN conjunct1, rule_format, OF kh]
  note inv = populateGrid_reseeds [where e = columnSeed and s = aliased and s' = s',
      THEN conjunct2, THEN conjunct2, THEN conjunct2, THEN conjunct2, THEN conjunct2,
      THEN conjunct2, THEN conjunct2, THEN conjunct2, THEN conjunct2, THEN conjunct2,
      THEN conjunct2, THEN conjunct2, THEN conjunct2, THEN conjunct1, rule_format, OF r]
  \<comment> \<open>A state without columns: the first store throws.\<close>
  have "case cycle rowSeed initial of Inl err \<Rightarrow> True | Inr p \<Rightarrow> False"
    by code_simp
  then obtain err where "cycle rowSeed initial = Inl err"
    by (auto split: sum.splits)
  then have thr: "cycle rowSeed initial = Inl TypeError"
    by (cases err) simp
  then have th: "collapses rowSeed 0 initial = Some initial \<and> cycle rowSeed initial = Inl TypeError"
    by simp
  note throws = populateGrid_reseeds [where e = rowSeed and s = initial and n = 0
      and sk = initial and err = TypeError, THEN conjunct2, THEN conjunct2, THEN conjunct2, THEN conjunct2, THEN conjunct2,
      THEN conjunct2, THEN conjunct2, THEN conjunct2, THEN conjunct2, THEN conjunct2,
      THEN conjunct2, THEN conjunct1, rule_format, OF th]
  \<comment> \<open>Seedings that all collapse.\<close>
  have c3: "cols noLuck = 3" "rows noLuck = 3"
    by (simp_all add: cols_div rows_div noLuck_def)
  have forever: "\<forall>k. collapses noLuck k barren \<noteq> None"
  proof
    fix k
    show "collapses noLuck k barren \<noteq> None"
    proof (rule collapses_dead)
      show "\<forall>n. random noLuck n \<le> 1 / 2"
        by (simp add: noLuck_def)
      show "0 < width noLuck * height noLuck"
        by (simp add: noLuck_def)
      show "heap barren (grid barren) = deadGrid (cols noLuck) (rows noLuck)"
        by (simp add: c3 barren_def initial_def)
      show "rect (cols noLuck) (rows noLuck) (heap barren (tempGrid barren))"
        by (simp add: c3 barren_def initial_def rect_deadGrid)
    qed
  qed
  note never = populateGrid_reseeds [where e = noLuck and s = barren,
      THEN conjunct2, THEN conjunct2, THEN conjunct2, THEN conjunct2, THEN conjunct2,
      THEN conjunct2, THEN conjunct2, THEN conjunct2, THEN conjunct2, THEN conjunct2,
      THEN conjunct2, THEN conjunct2, THEN conjunct1, THEN iffD2, OF forever]
  \<comment> \<open>The frame callback in which the reseeding fires.\<close>
  let ?s = "aliased\<lparr>startTime := Some 0\<rparr>"
  let ?s1 = "?s\<lparr>drawCount := drawCount ?s + 1, startTime := Some 501\<rparr>"
  have m: "stepInMs < minus64 501 0"
    by code_simp
  have "case cycle columnSeed ?s1 of Inl err \<Rightarrow> False
        | Inr (sn, cnt) \<Rightarrow> collapsed columnSeed cnt"
    and "returned (start columnSeed 501 ?s)"
    and "case collapses columnSeed 1 ?s1 of None \<Rightarrow> False
        | Some sk \<Rightarrow> (case cycle columnSeed sk of Inl err \<Rightarrow> False
            | Inr (sn, cnt) \<Rightarrow> \<not> collapsed columnSeed cnt)"
    by code_simp+
  then obtain tn cnt' t' fk fn fc where
    "cycle columnSeed ?s1 = Inr (tn, cnt')"
    and "collapsed columnSeed cnt'" and b: "start columnSeed 501 ?s = Some (Inr t')"
    and "collapses columnSeed 1 ?s1 = Some fk" and "cycle columnSeed fk = Inr (fn, fc)"
    and "\<not> collapsed columnSeed fc"
    by (auto simp: returned_def split: option.splits sum.splits)
  with m have hyp: "startTime ?s = Some 0 \<and> stepInMs < minus64 501 0 \<and>
    cycle columnSeed ?s1 = Inr (tn, cnt') \<and>
    collapsed columnSeed cnt' \<and> start columnSeed 501 ?s = Some (Inr t')"
    and hyp2: "startTime ?s = Some 0 \<and> stepInMs < minus64 501 0 \<and>
    collapses columnSeed 1 ?s1 = Some fk \<and>
    cycle columnSeed fk = Inr (fn, fc) \<and> \<not> collapsed columnSeed fc"
    by simp_all
  note fr = populateGrid_reseeds [where e = columnSeed and s = ?s and sn = tn and cnt = cnt'
      and s' = t' and t = 501 and tp = 0, THEN conjunct2, THEN conjunct2, THEN conjunct2, THEN conjunct2, THEN conjunct2,
      THEN conjunct2, THEN conjunct2, THEN conjunct2, THEN conjunct2, THEN conjunct2,
      THEN conjunct2, THEN conjunct2, THEN conjunct2, THEN conjunct2, THEN conjunct2,
      THEN conjunct2, rule_format, OF hyp]
  note tot = populateGrid_reseeds [where e = columnSeed and s = ?s and sn = fn and cnt = fc
      and n = 1 and sk = fk and t = 501 and tp = 0, THEN conjunct2, THEN conjunct2, THEN conjunct2, THEN conjunct2, THEN conjunct2,
      THEN conjunct2, THEN conjunct2, THEN conjunct2, THEN conjunct2, THEN conjunct2,
      THEN conjunct2, THEN conjunct2, THEN conjunct2, THEN conjunct2, THEN conjunct2,
      THEN conjunct1, rule_format, OF hyp2]
  show ?thesis
  proof (intro conjI)
    show "seedGrid columnSeed initial = Inr (freshGrids columnSeed initial)"
      by (rule seed)
    show "heap (freshGrids columnSeed initial) (grid (freshGrids columnSeed initial)) =
        [[Num 0, Num 0, Num 0], [Num 1, Num 1, Num 1], [Num 0, Num 0, Num 0]]"
      by (rule h1)
    show "heap (freshGrids columnSeed initial) (tempGrid (freshGrids columnSeed initial)) =
        [[Num 0, Num 0, Num 0], [Num 0, Num 0, Num 0], [Num 0, Num 0, Num 0]]"
      by (rule h2)
    from pop have "populateGrid columnSeed initial = Some (Inr pn) \<and>
        clearCalls pn = clearCalls initial + 1"
      by simp
    then show "\<exists>sn. populateGrid columnSeed initial = Some (Inr sn) \<and>
        clearCalls sn = clearCalls initial + 1"
      by (intro exI)
    from u have "update columnSeed aliased = update columnSeed (freshGrids columnSeed sn)"
      and "update columnSeed aliased = Some (Inr s') \<longrightarrow> clearCalls aliased + 2 \<le> clearCalls s'"
      by blast+
    with a r have "cycle columnSeed aliased = Inr (sn, cnt) \<and> collapsed columnSeed cnt \<and>
        update columnSeed aliased = Some (Inr s') \<and>
        update columnSeed aliased = update columnSeed (freshGrids columnSeed sn) \<and>
        clearCalls aliased + 2 \<le> clearCalls s'"
      by blast
    then show "\<exists>sn cnt s'. cycle columnSeed aliased = Inr (sn, cnt) \<and> collapsed columnSeed cnt \<and>
        update columnSeed aliased = Some (Inr s') \<and>
        update columnSeed aliased = update columnSeed (freshGrids columnSeed sn) \<and>
        clearCalls aliased + 2 \<le> clearCalls s'"
      by (intro exI)
    from w have w1: "update columnSeed aliased = update columnSeed sk"
      by blast
    from v have v1: "update columnSeed aliased = Some (Inr kn)"
      and "clearCalls kn = clearCalls aliased + 1 + 1"
      by blast+
    then have v2: "clearCalls kn = clearCalls aliased + 2"
      by simp
    from kh w1 v1 v2 have "collapses columnSeed 1 aliased = Some sk \<and>
      cycle columnSeed sk = Inr (kn, kc) \<and> \<not> collapsed columnSeed kc \<and>
      update columnSeed aliased = update columnSeed sk \<and>
      update columnSeed aliased = Some (Inr kn) \<and>
      clearCalls kn = clearCalls aliased + 2"
      by blast
    then show "\<exists>sk sn cnt. collapses columnSeed 1 aliased = Some sk \<and>
      cycle columnSeed sk = Inr (sn, cnt) \<and> \<not> collapsed columnSeed cnt \<and>
      update columnSeed aliased = update columnSeed sk \<and>
      update columnSeed aliased = Some (Inr sn) \<and>
      clearCalls sn = clearCalls aliased + 2"
      by (intro exI)
    from inv obtain m sm c where "collapses columnSeed m aliased = Some sm \<and>
      cycle columnSeed sm = Inr (s', c) \<and> \<not> collapsed columnSeed c \<and>
      clearCalls s' = clearCalls aliased + m + 1"
      by blast
    with r have "update columnSeed aliased = Some (Inr s') \<and>
      collapses columnSeed m aliased = Some sm \<and> cycle columnSeed sm = Inr (s', c) \<and>
      \<not> collapsed columnSeed c \<and> clearCalls s' = clearCalls aliased + m + 1"
      by (rule conjI)
    then show "\<exists>s' m sm c. update columnSeed aliased = Some (Inr s') \<and>
      collapses columnSeed m aliased = Some sm \<and> cycle columnSeed sm = Inr (s', c) \<and>
      \<not> collapsed columnSeed c \<and> clearCalls s' = clearCalls aliased + m + 1"
      by (intro exI)
    show "cycle rowSeed initial = Inl TypeError"
      by (rule thr)
    show "update rowSeed initial = Some (Inl TypeError)"
      by (rule throws)
    show "\<forall>k. collapses noLuck k barren \<noteq> None"
      by (rule forever)
    show "update noLuck barren = None"
      by (rule never)
    from tot have "start columnSeed 501 ?s =
        Some (Inr (fn\<lparr>frameRequests := frameRequests fn + 1\<rparr>))"
      and "clearCalls fn = clearCalls ?s + 1 + 1"
      by blast+
    then have "start columnSeed 501 ?s =
        Some (Inr (fn\<lparr>frameRequests := frameRequests fn + 1\<rparr>)) \<and>
      clearCalls fn = clearCalls ?s + 2"
      by simp
    then show "\<exists>sn. start columnSeed 501 ?s =
        Some (Inr (sn\<lparr>frameRequests := frameRequests sn + 1\<rparr>)) \<and>
      clearCalls sn = clearCalls ?s + 2"
      by (intro exI)
    from b fr have "start columnSeed 501 ?s = Some (Inr t') \<and> clearCalls ?s + 2 \<le> clearCalls t'"
      by (rule conjI)
    then show "\<exists>s'. start columnSeed 501 ?s = Some (Inr s') \<and> clearCalls ?s + 2 \<le> clearCalls s'"
      by (intro exI)
  qed
qed


end
